theory Spec2Isabelle
  imports Main
begin

section \<open>The untools logger: the value formatter\<close>

text \<open>
  The repository holds the logger in three revisions.  Two of them are modelled here:
  the first revision of \<^verbatim>\<open>src/index.ts\<close> (its \<^verbatim>\<open>formatArgument(arg, depth, seen)\<close>,
  plain strings, no pretty printing, no colours) and the latest revision
  (\<^verbatim>\<open>formatArgument(arg, options)\<close> with quoting, colours and pretty printing).  The
  second revision of \<^verbatim>\<open>src/index.ts\<close> has the container handling of the first and the
  element handling of the latest.

  Constants of the latest revision keep the source's names; those of the first revision
  of \<^verbatim>\<open>src/index.ts\<close> carry the suffix \<open>_index\<close>.
\<close>

subsection \<open>Runtime values\<close>

text \<open>
  A JavaScript string is a list of UTF-16 code units; \<open>length\<close> and \<open>substring\<close>
  count code units.  One \<^typ>\<open>char\<close> stands for one code unit.

  Numbers are the integer-valued ones whose \<^verbatim>\<open>String(n)\<close> is the plain decimal numeral
  (magnitude below \<open>10^21\<close>); the options \<open>maxDepth\<close>, \<open>maxStringLength\<close> and
  \<open>indentSize\<close> are non-negative integers.  Objects live in a heap and are referred
  to by address, so that identity, sharing and cycles are those of the program.
\<close>

type_synonym addr = nat

datatype jsval =
    JNull
  | JUndefined
  | JString string
  | JNumber int
  | JBoolean bool
  | JSymbol string            \<comment> \<open>the symbol's description\<close>
  | JBigInt int
  | JFunction string          \<comment> \<open>the function's \<open>name\<close>\<close>
  | JRef addr

text \<open>A thrown value: an \<open>Error\<close> instance with its message, or anything else.\<close>

datatype thrown = ThrownError string | ThrownOther

text \<open>
  The kinds of object the formatter tells apart.  An \<open>Element\<close> is an instance of
  the host's \<open>Element\<close> class: its \<open>tagName\<close> is a string, its \<open>attributes\<close> are
  kept as name and value, its \<open>children\<close> by their number.  A \<open>DateObj\<close> holds the
  ISO-8601 text of its time value, or \<open>None\<close> when the date is invalid.  A \<open>PlainObj\<close>
  holds its own enumerable string-keyed entries in enumeration order.  An \<open>OpaqueObj\<close>
  is an object whose enumeration throws (a throwing getter or proxy trap).
\<close>

datatype jsobj =
    is_Element: Element (tagName: string) (attributes: "(string \<times> string) list")
      (children: nat) (elementEntries: "(string \<times> jsval) list")
  | is_Error: ErrorObj (name: string) (message: string) (stack: "string option")
  | is_Date: DateObj (timeText: "string option")
  | is_RegExp: RegExpObj (source: string) (flags: string)
  | is_Array: ArrayObj (items: "jsval list")
  | is_Plain: PlainObj (plainEntries: "(string \<times> jsval) list")
  | is_Opaque: OpaqueObj (raises: thrown)

type_synonym heap = "addr \<Rightarrow> jsobj"

subsection \<open>Host string operations\<close>

definition digit :: "nat \<Rightarrow> char" where
  "digit d = ''0123456789'' ! d"

fun showNat :: "nat \<Rightarrow> string" where
  "showNat n = (if n < 10 then [digit n] else showNat (n div 10) @ [digit (n mod 10)])"

declare showNat.simps [simp del]

definition showInt :: "int \<Rightarrow> string" where
  "showInt i = (if i < 0 then CHR ''-'' # showNat (nat (- i)) else showNat (nat i))"

text \<open>\<open>String(arg)\<close> on the primitives that reach it.\<close>

definition String_number :: "int \<Rightarrow> string" where
  "String_number n = showInt n"

definition String_boolean :: "bool \<Rightarrow> string" where
  "String_boolean b = (if b then ''true'' else ''false'')"

definition String_symbol :: "string \<Rightarrow> string" where
  "String_symbol d = ''Symbol('' @ d @ '')''"

definition String_bigint :: "int \<Rightarrow> string" where
  "String_bigint n = showInt n"

text \<open>\<open>Array.prototype.join\<close> on strings.\<close>

fun join :: "string \<Rightarrow> string list \<Rightarrow> string" where
  "join sep [] = []"
| "join sep [x] = x"
| "join sep (x # y # ys) = x @ sep @ join sep (y # ys)"

text \<open>\<open>substring(0, n)\<close> and \<open>" ".repeat(n)\<close>.\<close>

definition substring0 :: "string \<Rightarrow> nat \<Rightarrow> string" where
  "substring0 s n = take n s"

definition repeat_space :: "nat \<Rightarrow> string" where
  "repeat_space n = replicate n CHR '' ''"

text \<open>\<open>toLowerCase\<close> on the ASCII letters.\<close>

definition lowerChar :: "char \<Rightarrow> char" where
  "lowerChar c =
     (let n = (of_char c :: nat) in if 65 \<le> n \<and> n \<le> 90 then char_of (n + 32) else c)"

definition toLowerCase :: "string \<Rightarrow> string" where
  "toLowerCase s = map lowerChar s"

text \<open>\<open>Date.prototype.toISOString\<close>, \<open>RegExp.prototype.toString\<close>.\<close>

definition toISOString :: "string option \<Rightarrow> thrown + string" where
  "toISOString t =
     (case t of None \<Rightarrow> Inl (ThrownError ''Invalid time value'') | Some s \<Rightarrow> Inr s)"

definition regexpToString :: "string \<Rightarrow> string \<Rightarrow> string" where
  "regexpToString src fl = ''/'' @ src @ ''/'' @ fl"

text \<open>
  \<open>Object.entries\<close> of an object that reached the generic branch: the own enumerable
  string-keyed entries, or the value thrown while enumerating.
\<close>

fun Object_entries :: "jsobj \<Rightarrow> thrown + (string \<times> jsval) list" where
  "Object_entries (PlainObj es) = Inr es"
| "Object_entries (Element t ats n es) = Inr es"
| "Object_entries (OpaqueObj e) = Inl e"
| "Object_entries (ArrayObj xs) = Inr (zip (map showNat [0..<length xs]) xs)"
| "Object_entries (ErrorObj n m s) = Inr []"
| "Object_entries (DateObj d) = Inr []"
| "Object_entries (RegExpObj s f) = Inr []"

subsection \<open>The logger and its environment\<close>

datatype domElementFormat = Inspect | Summary | Disabled

record env =
  isDevelopment :: bool
  isNode :: bool
  isBrowser :: bool
  isEdgeRuntime :: bool

text \<open>
  What the logger reads of the runtime it is in: whether the globals \<open>process\<close>,
  \<open>window\<close> and \<open>Element\<close> are defined, whether \<open>process.env\<close> and
  \<open>process.versions\<close> are objects, the variables \<open>NEXT_RUNTIME\<close> and \<open>NODE_ENV\<close>,
  and whether \<open>window.location.hostname\<close> includes \<open>"production"\<close>.
\<close>

record host =
  processDefined :: bool
  processEnvIsObject :: bool
  processVersionsIsObject :: bool
  NEXT_RUNTIME :: "string option"
  NODE_ENV :: "string option"
  windowDefined :: bool
  hostnameIncludesProduction :: bool
  ElementDefined :: bool

definition getEnvironment :: "host \<Rightarrow> env" where
  "getEnvironment H =
     (if processDefined H \<and> processEnvIsObject H \<and> NEXT_RUNTIME H = Some ''edge'' then
        \<lparr>isDevelopment = (NODE_ENV H \<noteq> Some ''production''), isNode = False,
         isBrowser = False, isEdgeRuntime = True\<rparr>
      else if windowDefined H then
        \<lparr>isDevelopment =
           (\<not> hostnameIncludesProduction H \<and>
            (\<not> processDefined H \<or>
             (processEnvIsObject H \<and> NODE_ENV H \<noteq> Some ''production''))),
         isNode = False, isBrowser = True, isEdgeRuntime = False\<rparr>
      else if processDefined H then
        \<lparr>isDevelopment = (processEnvIsObject H \<and> NODE_ENV H \<noteq> Some ''production''),
         isNode = processVersionsIsObject H, isBrowser = False, isEdgeRuntime = False\<rparr>
      else
        \<lparr>isDevelopment = True, isNode = False, isBrowser = False, isEdgeRuntime = False\<rparr>)"

text \<open>
  The fields of a \<open>Logger\<close> that the formatter reads (\<open>useColors\<close> is set from the
  option \<open>colors\<close>, \<open>env\<close> by \<open>getEnvironment\<close>), together with the runtime the
  logger lives in, whose globals \<open>window\<close> and \<open>Element\<close> the formatter tests at each
  call.
\<close>

record logger =
  maxDepth :: nat
  maxStringLength :: nat
  enableCircularHandling :: bool
  domElementFormat :: domElementFormat
  prettyPrint :: bool
  indentSize :: nat
  useColors :: bool
  env :: env
  host :: host

text \<open>The constructor: every option has its default.\<close>

record loggerOptions =
  opt_maxDepth :: "nat option"
  opt_maxStringLength :: "nat option"
  opt_enableCircularHandling :: "bool option"
  opt_domElementFormat :: "domElementFormat option"
  opt_prettyPrint :: "bool option"
  opt_indentSize :: "nat option"
  opt_colors :: "bool option"

definition orDefault :: "'a option \<Rightarrow> 'a \<Rightarrow> 'a" where
  "orDefault v d = (case v of None \<Rightarrow> d | Some x \<Rightarrow> x)"

definition newLogger :: "loggerOptions \<Rightarrow> host \<Rightarrow> logger" where
  "newLogger options H =
     \<lparr>maxDepth = orDefault (opt_maxDepth options) 5,
      maxStringLength = orDefault (opt_maxStringLength options) 10000,
      enableCircularHandling = orDefault (opt_enableCircularHandling options) True,
      domElementFormat = orDefault (opt_domElementFormat options) Summary,
      prettyPrint = orDefault (opt_prettyPrint options) True,
      indentSize = orDefault (opt_indentSize options) 2,
      useColors = orDefault (opt_colors options) True,
      env = getEnvironment H,
      host = H\<rparr>"

definition noOptions :: loggerOptions where
  "noOptions =
     \<lparr>opt_maxDepth = None, opt_maxStringLength = None, opt_enableCircularHandling = None,
      opt_domElementFormat = None, opt_prettyPrint = None, opt_indentSize = None,
      opt_colors = None\<rparr>"

datatype colorKey =
    CString | CNumber | CBoolean | CNull | CUndefined | CFunction | CSymbol | CDate
  | CRegexp | CKey | CBracket | CCircular | CTruncated | CMaxDepth | CReset

definition esc :: string where
  "esc = [char_of (27 :: nat)]"

fun consoleColors :: "colorKey \<Rightarrow> string" where
  "consoleColors CString = esc @ ''[32m''"
| "consoleColors CNumber = esc @ ''[36m''"
| "consoleColors CBoolean = esc @ ''[35m''"
| "consoleColors CNull = esc @ ''[90m''"
| "consoleColors CUndefined = esc @ ''[90m''"
| "consoleColors CFunction = esc @ ''[36m''"
| "consoleColors CSymbol = esc @ ''[35m''"
| "consoleColors CDate = esc @ ''[34m''"
| "consoleColors CRegexp = esc @ ''[35m''"
| "consoleColors CKey = esc @ ''[33m''"
| "consoleColors CBracket = esc @ ''[90m''"
| "consoleColors CCircular = esc @ ''[31m''"
| "consoleColors CTruncated = esc @ ''[90m''"
| "consoleColors CMaxDepth = esc @ ''[90m''"
| "consoleColors CReset = esc @ ''[0m''"

definition colorizeText :: "logger \<Rightarrow> string \<Rightarrow> colorKey \<Rightarrow> string" where
  "colorizeText L text type =
     (if \<not> useColors L then text
      else if isNode (env L) \<and> \<not> isEdgeRuntime (env L)
        then consoleColors type @ text @ consoleColors CReset
      else text)"

definition getIndentation :: "logger \<Rightarrow> nat \<Rightarrow> string" where
  "getIndentation L depth = repeat_space (depth * indentSize L)"

definition dq :: string where
  "dq = [CHR 0x22]"

definition nl :: string where
  "nl = [CHR 0x0A]"

subsection \<open>The latest revision: \<open>formatDOMElement\<close> and \<open>formatArgument\<close>\<close>

definition inspectAttributes :: "(string \<times> string) list \<Rightarrow> string" where
  "inspectAttributes ats = concat (map (\<lambda>(n, v). '' '' @ n @ ''='' @ dq @ v @ dq) ats)"

definition inspectChildren :: "nat \<Rightarrow> string" where
  "inspectChildren n = (if n > 0 then '' ('' @ showNat n @ '' children)'' else [])"

definition formatDOMElement :: "logger \<Rightarrow> jsobj \<Rightarrow> string" where
  "formatDOMElement L element =
     (if domElementFormat L = Disabled then ''[DOM Element]''
      else if \<not> isBrowser (env L) \<or> \<not> is_Element element then ''[DOM Element]''
      else if domElementFormat L = Inspect then
        ''<'' @ toLowerCase (tagName element) @ inspectAttributes (attributes element) @ ''>''
          @ inspectChildren (children element)
      else
        ''<'' @ toLowerCase (tagName element) @ ''> with ''
          @ showNat (length (attributes element)) @ '' attributes and ''
          @ showNat (children element) @ '' children'')"

text \<open>The \<open>catch\<close> block of the generic-object branch.\<close>

definition failedToStringify :: "thrown \<Rightarrow> string" where
  "failedToStringify e =
     (let errorMessage = (case e of ThrownError m \<Rightarrow> m | ThrownOther \<Rightarrow> ''unknown error'')
      in ''[Object: failed to stringify - '' @ errorMessage @ '']'')"

type_synonym seen = "addr set"

text \<open>
  \<open>formatArgument L h arg depth seen indentation\<close> is the method on the logger \<open>L\<close>
  with \<open>options = {depth, seen, indentation}\<close>, in the heap \<open>h\<close>.  It returns the
  string, or the value it throws, together with the \<open>seen\<close> map as the call leaves
  it.  \<open>formatArguments\<close> is \<open>.map(item => this.formatArgument(item, {...}))\<close>: the
  elements in order, each with the \<open>seen\<close> map the previous one left, stopping at the
  first that throws.
\<close>

function formatArgument ::
    "logger \<Rightarrow> heap \<Rightarrow> jsval \<Rightarrow> nat \<Rightarrow> seen \<Rightarrow> string \<Rightarrow> (thrown + string) \<times> seen"
  and formatArguments ::
    "logger \<Rightarrow> heap \<Rightarrow> jsval list \<Rightarrow> nat \<Rightarrow> seen \<Rightarrow> string \<Rightarrow> (thrown + string list) \<times> seen"
where
  "formatArgument L h arg depth seen indentation =
     (if depth > maxDepth L then (Inr (colorizeText L ''[Max Depth Reached]'' CMaxDepth), seen)
      else case arg of
        JNull \<Rightarrow> (Inr (colorizeText L ''null'' CNull), seen)
      | JUndefined \<Rightarrow> (Inr (colorizeText L ''undefined'' CUndefined), seen)
      | JString s \<Rightarrow>
          if length s > maxStringLength L then
            let truncated = substring0 s (maxStringLength L) @ ''...'';
                truncatedMsg = colorizeText L
                  ('' [truncated, '' @ showNat (length s) @ '' chars total]'') CTruncated
            in (Inr (colorizeText L (dq @ truncated @ dq) CString @ truncatedMsg), seen)
          else (Inr (colorizeText L (dq @ s @ dq) CString), seen)
      | JNumber n \<Rightarrow> (Inr (colorizeText L (String_number n) CNumber), seen)
      | JBoolean b \<Rightarrow> (Inr (colorizeText L (String_boolean b) CBoolean), seen)
      | JSymbol d \<Rightarrow> (Inr (colorizeText L (String_symbol d) CSymbol), seen)
      | JBigInt n \<Rightarrow> (Inr (colorizeText L (String_bigint n @ ''n'') CNumber), seen)
      | JFunction f \<Rightarrow>
          (Inr (colorizeText L
             (''[Function: '' @ (if f = [] then ''anonymous'' else f) @ '']'') CFunction), seen)
      | JRef a \<Rightarrow>
          if isBrowser (env L) \<and> windowDefined (host L) \<and> ElementDefined (host L)
             \<and> is_Element (h a)
          then (Inr (formatDOMElement L (h a)), seen)
          else if is_Error (h a) then
            (Inr (name (h a) @ '': '' @ message (h a) @ nl
                  @ (case stack (h a) of None \<Rightarrow> [] | Some s \<Rightarrow> s)), seen)
          else if is_Date (h a) then
            (case toISOString (timeText (h a)) of
               Inl e \<Rightarrow> (Inl e, seen)
             | Inr s \<Rightarrow> (Inr (colorizeText L s CDate), seen))
          else if is_RegExp (h a) then
            (Inr (colorizeText L (regexpToString (source (h a)) (flags (h a))) CRegexp), seen)
          else if is_Array (h a) then
            if enableCircularHandling L \<and> a \<in> seen
            then (Inr (colorizeText L ''[Circular Reference]'' CCircular), seen)
            else
              let seen1 = (if enableCircularHandling L then insert a seen else seen) in
              if length (items (h a)) = 0 then (Inr (colorizeText L ''[]'' CBracket), seen1)
              else if \<not> prettyPrint L then
                (case formatArguments L h (items (h a)) (depth + 1) seen1 [] of
                   (Inl e, seen2) \<Rightarrow> (Inl e, seen2)
                 | (Inr strs, seen2) \<Rightarrow>
                     (Inr (colorizeText L ''['' CBracket @ join '', '' strs
                           @ colorizeText L '']'' CBracket), seen2))
              else
                let nextIndent = indentation @ getIndentation L 1 in
                (case formatArguments L h (items (h a)) (depth + 1) seen1 nextIndent of
                   (Inl e, seen2) \<Rightarrow> (Inl e, seen2)
                 | (Inr strs, seen2) \<Rightarrow>
                     (Inr (colorizeText L ''['' CBracket @ nl
                           @ join ('','' @ nl) (map (\<lambda>s. nextIndent @ s) strs)
                           @ nl @ indentation @ colorizeText L '']'' CBracket), seen2))
          else
            if enableCircularHandling L \<and> a \<in> seen
            then (Inr (colorizeText L ''[Circular Reference]'' CCircular), seen)
            else
              let seen1 = (if enableCircularHandling L then insert a seen else seen) in
              (case Object_entries (h a) of
                 Inl e \<Rightarrow> (Inr (failedToStringify e), seen1)
               | Inr entries \<Rightarrow>
                   if length entries = 0 then (Inr (colorizeText L ''{}'' CBracket), seen1)
                   else if \<not> prettyPrint L then
                     (case formatArguments L h (map snd entries) (depth + 1) seen1 [] of
                        (Inl e, seen2) \<Rightarrow> (Inr (failedToStringify e), seen2)
                      | (Inr strs, seen2) \<Rightarrow>
                          (Inr (colorizeText L ''{'' CBracket
                                @ join '', ''
                                    (map2 (\<lambda>key s. colorizeText L key CKey @ '': '' @ s)
                                       (map fst entries) strs)
                                @ colorizeText L ''}'' CBracket), seen2))
                   else
                     let nextIndent = indentation @ getIndentation L 1 in
                     (case formatArguments L h (map snd entries) (depth + 1) seen1 nextIndent of
                        (Inl e, seen2) \<Rightarrow> (Inr (failedToStringify e), seen2)
                      | (Inr strs, seen2) \<Rightarrow>
                          (Inr (colorizeText L ''{'' CBracket @ nl
                                @ join ('','' @ nl)
                                    (map2 (\<lambda>key s. nextIndent @ colorizeText L key CKey @ '': '' @ s)
                                       (map fst entries) strs)
                                @ nl @ indentation @ colorizeText L ''}'' CBracket), seen2))))"
| "formatArguments L h [] depth seen indentation = (Inr [], seen)"
| "formatArguments L h (item # rest) depth seen indentation =
     (case formatArgument L h item depth seen indentation of
        (Inl e, seen1) \<Rightarrow> (Inl e, seen1)
      | (Inr s, seen1) \<Rightarrow>
          (case formatArguments L h rest depth seen1 indentation of
             (Inl e, seen2) \<Rightarrow> (Inl e, seen2)
           | (Inr strs, seen2) \<Rightarrow> (Inr (s # strs), seen2)))"
  by pat_completeness auto

termination
  by (relation "measures
        [\<lambda>x. case x of Inl (L, h, arg, depth, seen, ind) \<Rightarrow> maxDepth L + 1 - depth
                         | Inr (L, h, args, depth, seen, ind) \<Rightarrow> maxDepth L + 1 - depth,
         \<lambda>x. case x of Inl (L, h, arg, depth, seen, ind) \<Rightarrow> 0
                         | Inr (L, h, args, depth, seen, ind) \<Rightarrow> 1 + length args]")
     auto

subsection \<open>The first revision of \<open>src/index.ts\<close>\<close>

definition formatDOMElement_index :: "logger \<Rightarrow> jsobj \<Rightarrow> string" where
  "formatDOMElement_index L element =
     (if domElementFormat L = Disabled then ''[DOM Element]''
      else if domElementFormat L = Inspect then
        ''<'' @ toLowerCase (tagName element) @ inspectAttributes (attributes element) @ ''>''
          @ inspectChildren (children element)
      else
        ''<'' @ toLowerCase (tagName element) @ ''> with ''
          @ showNat (length (attributes element)) @ '' attributes and ''
          @ showNat (children element) @ '' children'')"

function formatArgument_index ::
    "logger \<Rightarrow> heap \<Rightarrow> jsval \<Rightarrow> nat \<Rightarrow> seen \<Rightarrow> (thrown + string) \<times> seen"
  and formatArguments_index ::
    "logger \<Rightarrow> heap \<Rightarrow> jsval list \<Rightarrow> nat \<Rightarrow> seen \<Rightarrow> (thrown + string list) \<times> seen"
where
  "formatArgument_index L h arg depth seen =
     (if depth > maxDepth L then (Inr ''[Max Depth Reached]'', seen)
      else case arg of
        JNull \<Rightarrow> (Inr ''null'', seen)
      | JUndefined \<Rightarrow> (Inr ''undefined'', seen)
      | JString s \<Rightarrow>
          if length s > maxStringLength L then
            (Inr (substring0 s (maxStringLength L) @ ''... [truncated, ''
                  @ showNat (length s) @ '' chars total]''), seen)
          else (Inr s, seen)
      | JNumber n \<Rightarrow> (Inr (String_number n), seen)
      | JBoolean b \<Rightarrow> (Inr (String_boolean b), seen)
      | JSymbol d \<Rightarrow> (Inr (String_symbol d), seen)
      | JBigInt n \<Rightarrow> (Inr (String_bigint n), seen)
      | JFunction f \<Rightarrow>
          (Inr (''[Function: '' @ (if f = [] then ''anonymous'' else f) @ '']''), seen)
      | JRef a \<Rightarrow>
          if windowDefined (host L) \<and> ElementDefined (host L) \<and> is_Element (h a)
          then (Inr (formatDOMElement_index L (h a)), seen)
          else if is_Error (h a) then
            (Inr (name (h a) @ '': '' @ message (h a) @ nl
                  @ (case stack (h a) of None \<Rightarrow> [] | Some s \<Rightarrow> s)), seen)
          else if is_Date (h a) then (toISOString (timeText (h a)), seen)
          else if is_RegExp (h a) then
            (Inr (regexpToString (source (h a)) (flags (h a))), seen)
          else if is_Array (h a) then
            if enableCircularHandling L \<and> a \<in> seen then (Inr ''[Circular Reference]'', seen)
            else
              let seen1 = (if enableCircularHandling L then insert a seen else seen) in
              (case formatArguments_index L h (items (h a)) (depth + 1) seen1 of
                 (Inl e, seen2) \<Rightarrow> (Inl e, seen2)
               | (Inr strs, seen2) \<Rightarrow> (Inr (''['' @ join '', '' strs @ '']''), seen2))
          else
            if enableCircularHandling L \<and> a \<in> seen then (Inr ''[Circular Reference]'', seen)
            else
              let seen1 = (if enableCircularHandling L then insert a seen else seen) in
              (case Object_entries (h a) of
                 Inl e \<Rightarrow> (Inr (failedToStringify e), seen1)
               | Inr es \<Rightarrow>
                   (case formatArguments_index L h (map snd es) (depth + 1) seen1 of
                      (Inl e, seen2) \<Rightarrow> (Inr (failedToStringify e), seen2)
                    | (Inr strs, seen2) \<Rightarrow>
                        (Inr (''{'' @ join '', ''
                                (map2 (\<lambda>key s. key @ '': '' @ s) (map fst es) strs)
                              @ ''}''), seen2))))"
| "formatArguments_index L h [] depth seen = (Inr [], seen)"
| "formatArguments_index L h (item # rest) depth seen =
     (case formatArgument_index L h item depth seen of
        (Inl e, seen1) \<Rightarrow> (Inl e, seen1)
      | (Inr s, seen1) \<Rightarrow>
          (case formatArguments_index L h rest depth seen1 of
             (Inl e, seen2) \<Rightarrow> (Inl e, seen2)
           | (Inr strs, seen2) \<Rightarrow> (Inr (s # strs), seen2)))"
  by pat_completeness auto

termination
  by (relation "measures
        [\<lambda>x. case x of Inl (L, h, arg, depth, seen) \<Rightarrow> maxDepth L + 1 - depth
                         | Inr (L, h, args, depth, seen) \<Rightarrow> maxDepth L + 1 - depth,
         \<lambda>x. case x of Inl (L, h, arg, depth, seen) \<Rightarrow> 0
                         | Inr (L, h, args, depth, seen) \<Rightarrow> 1 + length args]")
     auto

subsection \<open>The formatter on a bounded call stack\<close>

text \<open>
  The same two methods with the call stack made explicit: \<open>k\<close> is the number of
  \<open>formatArgument\<close> frames that still fit.  A call that finds no frame left does not
  return (\<open>None\<close>); every nested call has one frame less than its caller.
\<close>

function formatArgument_stack ::
    "nat \<Rightarrow> logger \<Rightarrow> heap \<Rightarrow> jsval \<Rightarrow> nat \<Rightarrow> seen \<Rightarrow> string
      \<Rightarrow> ((thrown + string) \<times> seen) option"
  and formatArguments_stack ::
    "nat \<Rightarrow> logger \<Rightarrow> heap \<Rightarrow> jsval list \<Rightarrow> nat \<Rightarrow> seen \<Rightarrow> string
      \<Rightarrow> ((thrown + string list) \<times> seen) option"
where
  "formatArgument_stack 0 L h arg depth seen indentation = None"
| "formatArgument_stack (Suc k) L h arg depth seen indentation =
     (if depth > maxDepth L
      then Some (Inr (colorizeText L ''[Max Depth Reached]'' CMaxDepth), seen)
      else case arg of
        JNull \<Rightarrow> Some (Inr (colorizeText L ''null'' CNull), seen)
      | JUndefined \<Rightarrow> Some (Inr (colorizeText L ''undefined'' CUndefined), seen)
      | JString s \<Rightarrow>
          if length s > maxStringLength L then
            let truncated = substring0 s (maxStringLength L) @ ''...'';
                truncatedMsg = colorizeText L
                  ('' [truncated, '' @ showNat (length s) @ '' chars total]'') CTruncated
            in Some (Inr (colorizeText L (dq @ truncated @ dq) CString @ truncatedMsg), seen)
          else Some (Inr (colorizeText L (dq @ s @ dq) CString), seen)
      | JNumber n \<Rightarrow> Some (Inr (colorizeText L (String_number n) CNumber), seen)
      | JBoolean b \<Rightarrow> Some (Inr (colorizeText L (String_boolean b) CBoolean), seen)
      | JSymbol d \<Rightarrow> Some (Inr (colorizeText L (String_symbol d) CSymbol), seen)
      | JBigInt n \<Rightarrow> Some (Inr (colorizeText L (String_bigint n @ ''n'') CNumber), seen)
      | JFunction f \<Rightarrow>
          Some (Inr (colorizeText L
             (''[Function: '' @ (if f = [] then ''anonymous'' else f) @ '']'') CFunction), seen)
      | JRef a \<Rightarrow>
          if isBrowser (env L) \<and> windowDefined (host L) \<and> ElementDefined (host L)
             \<and> is_Element (h a)
          then Some (Inr (formatDOMElement L (h a)), seen)
          else if is_Error (h a) then
            Some (Inr (name (h a) @ '': '' @ message (h a) @ nl
                  @ (case stack (h a) of None \<Rightarrow> [] | Some s \<Rightarrow> s)), seen)
          else if is_Date (h a) then
            (case toISOString (timeText (h a)) of
               Inl e \<Rightarrow> Some (Inl e, seen)
             | Inr s \<Rightarrow> Some (Inr (colorizeText L s CDate), seen))
          else if is_RegExp (h a) then
            Some (Inr (colorizeText L (regexpToString (source (h a)) (flags (h a))) CRegexp),
                  seen)
          else if is_Array (h a) then
            if enableCircularHandling L \<and> a \<in> seen
            then Some (Inr (colorizeText L ''[Circular Reference]'' CCircular), seen)
            else
              let seen1 = (if enableCircularHandling L then insert a seen else seen) in
              if length (items (h a)) = 0 then Some (Inr (colorizeText L ''[]'' CBracket), seen1)
              else if \<not> prettyPrint L then
                (case formatArguments_stack k L h (items (h a)) (depth + 1) seen1 [] of
                   None \<Rightarrow> None
                 | Some (Inl e, seen2) \<Rightarrow> Some (Inl e, seen2)
                 | Some (Inr strs, seen2) \<Rightarrow>
                     Some (Inr (colorizeText L ''['' CBracket @ join '', '' strs
                           @ colorizeText L '']'' CBracket), seen2))
              else
                let nextIndent = indentation @ getIndentation L 1 in
                (case formatArguments_stack k L h (items (h a)) (depth + 1) seen1 nextIndent of
                   None \<Rightarrow> None
                 | Some (Inl e, seen2) \<Rightarrow> Some (Inl e, seen2)
                 | Some (Inr strs, seen2) \<Rightarrow>
                     Some (Inr (colorizeText L ''['' CBracket @ nl
                           @ join ('','' @ nl) (map (\<lambda>s. nextIndent @ s) strs)
                           @ nl @ indentation @ colorizeText L '']'' CBracket), seen2))
          else
            if enableCircularHandling L \<and> a \<in> seen
            then Some (Inr (colorizeText L ''[Circular Reference]'' CCircular), seen)
            else
              let seen1 = (if enableCircularHandling L then insert a seen else seen) in
              (case Object_entries (h a) of
                 Inl e \<Rightarrow> Some (Inr (failedToStringify e), seen1)
               | Inr entries \<Rightarrow>
                   if length entries = 0 then Some (Inr (colorizeText L ''{}'' CBracket), seen1)
                   else if \<not> prettyPrint L then
                     (case formatArguments_stack k L h (map snd entries) (depth + 1) seen1 [] of
                        None \<Rightarrow> None
                      | Some (Inl e, seen2) \<Rightarrow> Some (Inr (failedToStringify e), seen2)
                      | Some (Inr strs, seen2) \<Rightarrow>
                          Some (Inr (colorizeText L ''{'' CBracket
                                @ join '', ''
                                    (map2 (\<lambda>key s. colorizeText L key CKey @ '': '' @ s)
                                       (map fst entries) strs)
                                @ colorizeText L ''}'' CBracket), seen2))
                   else
                     let nextIndent = indentation @ getIndentation L 1 in
                     (case formatArguments_stack k L h (map snd entries) (depth + 1) seen1
                             nextIndent of
                        None \<Rightarrow> None
                      | Some (Inl e, seen2) \<Rightarrow> Some (Inr (failedToStringify e), seen2)
                      | Some (Inr strs, seen2) \<Rightarrow>
                          Some (Inr (colorizeText L ''{'' CBracket @ nl
                                @ join ('','' @ nl)
                                    (map2 (\<lambda>key s. nextIndent @ colorizeText L key CKey @ '': '' @ s)
                                       (map fst entries) strs)
                                @ nl @ indentation @ colorizeText L ''}'' CBracket), seen2))))"
| "formatArguments_stack k L h [] depth seen indentation = Some (Inr [], seen)"
| "formatArguments_stack k L h (item # rest) depth seen indentation =
     (case formatArgument_stack k L h item depth seen indentation of
        None \<Rightarrow> None
      | Some (Inl e, seen1) \<Rightarrow> Some (Inl e, seen1)
      | Some (Inr s, seen1) \<Rightarrow>
          (case formatArguments_stack k L h rest depth seen1 indentation of
             None \<Rightarrow> None
           | Some (Inl e, seen2) \<Rightarrow> Some (Inl e, seen2)
           | Some (Inr strs, seen2) \<Rightarrow> Some (Inr (s # strs), seen2)))"
  by pat_completeness auto

termination
  by (relation "measures
        [\<lambda>x. case x of Inl (k, L, h, arg, depth, seen, ind) \<Rightarrow> k
                         | Inr (k, L, h, args, depth, seen, ind) \<Rightarrow> k,
         \<lambda>x. case x of Inl (k, L, h, arg, depth, seen, ind) \<Rightarrow> 0
                         | Inr (k, L, h, args, depth, seen, ind) \<Rightarrow> 1 + length args]")
     auto

function formatArgument_index_stack ::
    "nat \<Rightarrow> logger \<Rightarrow> heap \<Rightarrow> jsval \<Rightarrow> nat \<Rightarrow> seen \<Rightarrow> ((thrown + string) \<times> seen) option"
  and formatArguments_index_stack ::
    "nat \<Rightarrow> logger \<Rightarrow> heap \<Rightarrow> jsval list \<Rightarrow> nat \<Rightarrow> seen
      \<Rightarrow> ((thrown + string list) \<times> seen) option"
where
  "formatArgument_index_stack 0 L h arg depth seen = None"
| "formatArgument_index_stack (Suc k) L h arg depth seen =
     (if depth > maxDepth L then Some (Inr ''[Max Depth Reached]'', seen)
      else case arg of
        JNull \<Rightarrow> Some (Inr ''null'', seen)
      | JUndefined \<Rightarrow> Some (Inr ''undefined'', seen)
      | JString s \<Rightarrow>
          if length s > maxStringLength L then
            Some (Inr (substring0 s (maxStringLength L) @ ''... [truncated, ''
                  @ showNat (length s) @ '' chars total]''), seen)
          else Some (Inr s, seen)
      | JNumber n \<Rightarrow> Some (Inr (String_number n), seen)
      | JBoolean b \<Rightarrow> Some (Inr (String_boolean b), seen)
      | JSymbol d \<Rightarrow> Some (Inr (String_symbol d), seen)
      | JBigInt n \<Rightarrow> Some (Inr (String_bigint n), seen)
      | JFunction f \<Rightarrow>
          Some (Inr (''[Function: '' @ (if f = [] then ''anonymous'' else f) @ '']''), seen)
      | JRef a \<Rightarrow>
          if windowDefined (host L) \<and> ElementDefined (host L) \<and> is_Element (h a)
          then Some (Inr (formatDOMElement_index L (h a)), seen)
          else if is_Error (h a) then
            Some (Inr (name (h a) @ '': '' @ message (h a) @ nl
                  @ (case stack (h a) of None \<Rightarrow> [] | Some s \<Rightarrow> s)), seen)
          else if is_Date (h a) then Some (toISOString (timeText (h a)), seen)
          else if is_RegExp (h a) then
            Some (Inr (regexpToString (source (h a)) (flags (h a))), seen)
          else if is_Array (h a) then
            if enableCircularHandling L \<and> a \<in> seen
            then Some (Inr ''[Circular Reference]'', seen)
            else
              let seen1 = (if enableCircularHandling L then insert a seen else seen) in
              (case formatArguments_index_stack k L h (items (h a)) (depth + 1) seen1 of
                 None \<Rightarrow> None
               | Some (Inl e, seen2) \<Rightarrow> Some (Inl e, seen2)
               | Some (Inr strs, seen2) \<Rightarrow> Some (Inr (''['' @ join '', '' strs @ '']''), seen2))
          else
            if enableCircularHandling L \<and> a \<in> seen
            then Some (Inr ''[Circular Reference]'', seen)
            else
              let seen1 = (if enableCircularHandling L then insert a seen else seen) in
              (case Object_entries (h a) of
                 Inl e \<Rightarrow> Some (Inr (failedToStringify e), seen1)
               | Inr es \<Rightarrow>
                   (case formatArguments_index_stack k L h (map snd es) (depth + 1) seen1 of
                      None \<Rightarrow> None
                    | Some (Inl e, seen2) \<Rightarrow> Some (Inr (failedToStringify e), seen2)
                    | Some (Inr strs, seen2) \<Rightarrow>
                        Some (Inr (''{'' @ join '', ''
                                (map2 (\<lambda>key s. key @ '': '' @ s) (map fst es) strs)
                              @ ''}''), seen2))))"
| "formatArguments_index_stack k L h [] depth seen = Some (Inr [], seen)"
| "formatArguments_index_stack k L h (item # rest) depth seen =
     (case formatArgument_index_stack k L h item depth seen of
        None \<Rightarrow> None
      | Some (Inl e, seen1) \<Rightarrow> Some (Inl e, seen1)
      | Some (Inr s, seen1) \<Rightarrow>
          (case formatArguments_index_stack k L h rest depth seen1 of
             None \<Rightarrow> None
           | Some (Inl e, seen2) \<Rightarrow> Some (Inl e, seen2)
           | Some (Inr strs, seen2) \<Rightarrow> Some (Inr (s # strs), seen2)))"
  by pat_completeness auto

termination
  by (relation "measures
        [\<lambda>x. case x of Inl (k, L, h, arg, depth, seen) \<Rightarrow> k
                         | Inr (k, L, h, args, depth, seen) \<Rightarrow> k,
         \<lambda>x. case x of Inl (k, L, h, arg, depth, seen) \<Rightarrow> 0
                         | Inr (k, L, h, args, depth, seen) \<Rightarrow> 1 + length args]")
     auto

subsection \<open>Notions the properties are stated with\<close>

text \<open>Removing the whitespace of an output: space, tab, line feed, carriage return.\<close>

definition isWhitespace :: "char \<Rightarrow> bool" where
  "isWhitespace c = (c = CHR '' '' \<or> c = CHR 0x09 \<or> c = CHR 0x0A \<or> c = CHR 0x0D)"

definition stripWhitespace :: "string \<Rightarrow> string" where
  "stripWhitespace s = filter (\<lambda>c. \<not> isWhitespace c) s"

text \<open>The content of an outcome: the text without its whitespace, or the thrown value.\<close>

definition content :: "thrown + string \<Rightarrow> thrown + string" where
  "content r = (case r of Inl e \<Rightarrow> Inl e | Inr s \<Rightarrow> Inr (stripWhitespace s))"

definition contents :: "thrown + string list \<Rightarrow> thrown + string list" where
  "contents r = (case r of Inl e \<Rightarrow> Inl e | Inr strs \<Rightarrow> Inr (map stripWhitespace strs))"

text \<open>
  The objects each revision treats as containers (the array branch and the generic
  object branch), and the values such a container holds.
\<close>

definition isContainer :: "logger \<Rightarrow> jsobj \<Rightarrow> bool" where
  "isContainer L obj =
     (\<not> (isBrowser (env L) \<and> windowDefined (host L) \<and> ElementDefined (host L)
          \<and> is_Element obj)
      \<and> \<not> is_Error obj \<and> \<not> is_Date obj \<and> \<not> is_RegExp obj)"

definition isContainer_index :: "logger \<Rightarrow> jsobj \<Rightarrow> bool" where
  "isContainer_index L obj =
     (\<not> (windowDefined (host L) \<and> ElementDefined (host L) \<and> is_Element obj)
      \<and> \<not> is_Error obj \<and> \<not> is_Date obj \<and> \<not> is_RegExp obj)"

definition childValues :: "jsobj \<Rightarrow> jsval list" where
  "childValues obj =
     (if is_Array obj then items obj
      else case Object_entries obj of Inl e \<Rightarrow> [] | Inr es \<Rightarrow> map snd es)"

text \<open>
  \<open>visits C n h v\<close>: the containers met from \<open>v\<close> in the first \<open>n\<close> levels, in the
  order of the traversal and with repetitions, \<open>C\<close> telling which objects are
  containers.  A value is tree-shaped down to level \<open>n\<close> when this list has no
  repetition.
\<close>

fun visits :: "(jsobj \<Rightarrow> bool) \<Rightarrow> nat \<Rightarrow> heap \<Rightarrow> jsval \<Rightarrow> addr list" where
  "visits C 0 h v = []"
| "visits C (Suc n) h (JRef a) =
     (if C (h a) then a # concat (map (visits C n h) (childValues (h a))) else [])"
| "visits C (Suc n) h v = []"


text \<open>
  The text of a value that is not an object; the text of a container from the texts
  of what it holds, and the indentation its items are formatted with: the two output
  modes of the latest revision, and the one of the first.  The branch equations of
  \<open>formatArgument\<close> below are stated with them.
\<close>

definition childIndentation :: "logger \<Rightarrow> string \<Rightarrow> string" where
  "childIndentation L indentation =
     (if prettyPrint L then indentation @ getIndentation L 1 else [])"

definition arrayText :: "logger \<Rightarrow> string \<Rightarrow> string list \<Rightarrow> string" where
  "arrayText L indentation strs =
     (if strs = [] then colorizeText L ''[]'' CBracket
      else if \<not> prettyPrint L then
        colorizeText L ''['' CBracket @ join '', '' strs @ colorizeText L '']'' CBracket
      else
        colorizeText L ''['' CBracket @ nl
        @ join ('','' @ nl) (map (\<lambda>s. (indentation @ getIndentation L 1) @ s) strs)
        @ nl @ indentation @ colorizeText L '']'' CBracket)"

definition objectText :: "logger \<Rightarrow> string \<Rightarrow> string list \<Rightarrow> string list \<Rightarrow> string" where
  "objectText L indentation keys strs =
     (if keys = [] then colorizeText L ''{}'' CBracket
      else if \<not> prettyPrint L then
        colorizeText L ''{'' CBracket
        @ join '', '' (map2 (\<lambda>key s. colorizeText L key CKey @ '': '' @ s) keys strs)
        @ colorizeText L ''}'' CBracket
      else
        colorizeText L ''{'' CBracket @ nl
        @ join ('','' @ nl)
            (map2 (\<lambda>key s. (indentation @ getIndentation L 1) @ colorizeText L key CKey
                              @ '': '' @ s) keys strs)
        @ nl @ indentation @ colorizeText L ''}'' CBracket)"

definition primitiveText :: "logger \<Rightarrow> jsval \<Rightarrow> string" where
  "primitiveText L arg =
     (case arg of
        JNull \<Rightarrow> colorizeText L ''null'' CNull
      | JUndefined \<Rightarrow> colorizeText L ''undefined'' CUndefined
      | JString s \<Rightarrow>
          if length s > maxStringLength L then
            colorizeText L (dq @ substring0 s (maxStringLength L) @ ''...'' @ dq) CString
            @ colorizeText L ('' [truncated, '' @ showNat (length s) @ '' chars total]'')
                CTruncated
          else colorizeText L (dq @ s @ dq) CString
      | JNumber n \<Rightarrow> colorizeText L (String_number n) CNumber
      | JBoolean b \<Rightarrow> colorizeText L (String_boolean b) CBoolean
      | JSymbol d \<Rightarrow> colorizeText L (String_symbol d) CSymbol
      | JBigInt n \<Rightarrow> colorizeText L (String_bigint n @ ''n'') CNumber
      | JFunction f \<Rightarrow>
          colorizeText L (''[Function: '' @ (if f = [] then ''anonymous'' else f) @ '']'')
            CFunction
      | JRef a \<Rightarrow> [])"

definition primitiveText_index :: "logger \<Rightarrow> jsval \<Rightarrow> string" where
  "primitiveText_index L arg =
     (case arg of
        JNull \<Rightarrow> ''null''
      | JUndefined \<Rightarrow> ''undefined''
      | JString s \<Rightarrow>
          if length s > maxStringLength L then
            substring0 s (maxStringLength L) @ ''... [truncated, ''
            @ showNat (length s) @ '' chars total]''
          else s
      | JNumber n \<Rightarrow> String_number n
      | JBoolean b \<Rightarrow> String_boolean b
      | JSymbol d \<Rightarrow> String_symbol d
      | JBigInt n \<Rightarrow> String_bigint n
      | JFunction f \<Rightarrow> ''[Function: '' @ (if f = [] then ''anonymous'' else f) @ '']''
      | JRef a \<Rightarrow> [])"

definition arrayText_index :: "string list \<Rightarrow> string" where
  "arrayText_index strs = ''['' @ join '', '' strs @ '']''"

definition objectText_index :: "string list \<Rightarrow> string list \<Rightarrow> string" where
  "objectText_index keys strs =
     ''{'' @ join '', '' (map2 (\<lambda>key s. key @ '': '' @ s) keys strs) @ ''}''"

subsection \<open>Runtimes, loggers and heaps used as examples\<close>

definition nodeHost :: host where
  "nodeHost =
     \<lparr>processDefined = True, processEnvIsObject = True, processVersionsIsObject = True,
      NEXT_RUNTIME = None, NODE_ENV = None, windowDefined = False,
      hostnameIncludesProduction = False, ElementDefined = False\<rparr>"

definition browserHost :: host where
  "browserHost =
     \<lparr>processDefined = False, processEnvIsObject = False, processVersionsIsObject = False,
      NEXT_RUNTIME = None, NODE_ENV = None, windowDefined = True,
      hostnameIncludesProduction = False, ElementDefined = True\<rparr>"

text \<open>\<open>new Logger({prettyPrint: false, colors: false})\<close>.\<close>

definition compactPlain :: loggerOptions where
  "compactPlain = noOptions\<lparr>opt_prettyPrint := Some False, opt_colors := Some False\<rparr>"

text \<open>
  A heap: \<open>{a: 1, b: [1, 2, 3]}\<close> at 0 with its array at 1; \<open>x = {}; x.self = x\<close> at 2;
  \<open>new Date(NaN)\<close> at 3; an array holding the array at 1 twice at 4; a \<open>div\<close> element
  with one attribute and two children at 5; \<open>{when: new Date(NaN)}\<close> at 6; from 10 on
  an endless chain of one-element arrays, each holding the next.
\<close>

definition exampleHeap :: heap where
  "exampleHeap =
     (\<lambda>i. if i \<ge> 10 then ArrayObj [JRef (i + 1)] else PlainObj [])
       (0 := PlainObj [(''a'', JNumber 1), (''b'', JRef 1)],
        1 := ArrayObj [JNumber 1, JNumber 2, JNumber 3],
        2 := PlainObj [(''self'', JRef 2)],
        3 := DateObj None,
        4 := ArrayObj [JRef 1, JRef 1],
        5 := Element ''DIV'' [(''id'', ''app'')] 2 [],
        6 := PlainObj [(''when'', JRef 3)])"

section \<open>Properties\<close>

declare formatArgument.simps [simp del]
declare formatArgument_index.simps [simp del]
declare formatArgument_stack.simps(2) [simp del]
declare formatArgument_index_stack.simps(2) [simp del]

subsection \<open>The branches of \<open>formatArgument\<close>\<close>

lemma formatArgument_deep:
  "maxDepth L < depth \<Longrightarrow>
     formatArgument L h arg depth seen ind =
       (Inr (colorizeText L ''[Max Depth Reached]'' CMaxDepth), seen)"
  by (simp add: formatArgument.simps)

lemma formatArguments_length:
  "formatArguments L h args depth seen ind = (Inr strs, seen') \<Longrightarrow> length strs = length args"
  by (induction args arbitrary: seen strs) (auto split: sum.splits prod.splits)

lemma formatArguments_nonempty:
  "args \<noteq> [] \<Longrightarrow> formatArguments L h args depth seen ind = (Inr strs, seen') \<Longrightarrow> strs \<noteq> []"
  using formatArguments_length by fastforce

lemma isContainer_gate:
  "isContainer L obj \<Longrightarrow>
     (isBrowser (env L) \<and> windowDefined (host L) \<and> ElementDefined (host L) \<and> is_Element obj)
       = False"
  by (auto simp: isContainer_def)

lemma isContainer_kind:
  "isContainer L obj \<Longrightarrow> is_Error obj = False"
  "isContainer L obj \<Longrightarrow> is_Date obj = False"
  "isContainer L obj \<Longrightarrow> is_RegExp obj = False"
  by (auto simp: isContainer_def)

lemma formatArgument_noncontainer:
  assumes "depth \<le> maxDepth L" "\<not> isContainer L (h a)"
  shows "snd (formatArgument L h (JRef a) depth seen ind) = seen"
    and "fst (formatArgument L h (JRef a) depth seen ind) =
       (if isBrowser (env L) \<and> windowDefined (host L) \<and> ElementDefined (host L)
           \<and> is_Element (h a)
        then Inr (formatDOMElement L (h a))
        else if is_Error (h a) then
          Inr (name (h a) @ '': '' @ message (h a) @ nl
               @ (case stack (h a) of None \<Rightarrow> [] | Some s \<Rightarrow> s))
        else if is_Date (h a) then
          (case toISOString (timeText (h a)) of
             Inl e \<Rightarrow> Inl e | Inr s \<Rightarrow> Inr (colorizeText L s CDate))
        else Inr (colorizeText L (regexpToString (source (h a)) (flags (h a))) CRegexp))"
proof -
  consider (el) "isBrowser (env L) \<and> windowDefined (host L) \<and> ElementDefined (host L) \<and> is_Element (h a)"
    | (er) "\<not> (isBrowser (env L) \<and> windowDefined (host L) \<and> ElementDefined (host L) \<and> is_Element (h a))" "is_Error (h a)"
    | (da) "\<not> (isBrowser (env L) \<and> windowDefined (host L) \<and> ElementDefined (host L) \<and> is_Element (h a))" "\<not> is_Error (h a)" "is_Date (h a)"
    | (re) "\<not> (isBrowser (env L) \<and> windowDefined (host L) \<and> ElementDefined (host L) \<and> is_Element (h a))" "\<not> is_Error (h a)" "\<not> is_Date (h a)" "is_RegExp (h a)"
    using assms(2) unfolding isContainer_def by blast
  then have "snd (formatArgument L h (JRef a) depth seen ind) = seen \<and>
    fst (formatArgument L h (JRef a) depth seen ind) =
       (if isBrowser (env L) \<and> windowDefined (host L) \<and> ElementDefined (host L)
           \<and> is_Element (h a)
        then Inr (formatDOMElement L (h a))
        else if is_Error (h a) then
          Inr (name (h a) @ '': '' @ message (h a) @ nl
               @ (case stack (h a) of None \<Rightarrow> [] | Some s \<Rightarrow> s))
        else if is_Date (h a) then
          (case toISOString (timeText (h a)) of
             Inl e \<Rightarrow> Inl e | Inr s \<Rightarrow> Inr (colorizeText L s CDate))
        else Inr (colorizeText L (regexpToString (source (h a)) (flags (h a))) CRegexp))"
  proof cases
    case el
    with assms(1) show ?thesis by (auto simp add: formatArgument.simps)
  next
    case er
    with assms(1) show ?thesis by (auto simp add: formatArgument.simps)
  next
    case da
    with assms(1) show ?thesis by (auto simp add: formatArgument.simps split: sum.splits)
  next
    case re
    with assms(1) show ?thesis by (auto simp add: formatArgument.simps)
  qed
  then show "snd (formatArgument L h (JRef a) depth seen ind) = seen"
    and "fst (formatArgument L h (JRef a) depth seen ind) =
       (if isBrowser (env L) \<and> windowDefined (host L) \<and> ElementDefined (host L)
           \<and> is_Element (h a)
        then Inr (formatDOMElement L (h a))
        else if is_Error (h a) then
          Inr (name (h a) @ '': '' @ message (h a) @ nl
               @ (case stack (h a) of None \<Rightarrow> [] | Some s \<Rightarrow> s))
        else if is_Date (h a) then
          (case toISOString (timeText (h a)) of
             Inl e \<Rightarrow> Inl e | Inr s \<Rightarrow> Inr (colorizeText L s CDate))
        else Inr (colorizeText L (regexpToString (source (h a)) (flags (h a))) CRegexp))"
    by blast+
qed

lemma formatArgument_circular:
  "depth \<le> maxDepth L \<Longrightarrow> isContainer L (h a) \<Longrightarrow> enableCircularHandling L \<Longrightarrow> a \<in> seen \<Longrightarrow>
     formatArgument L h (JRef a) depth seen ind =
       (Inr (colorizeText L ''[Circular Reference]'' CCircular), seen)"
  by (simp add: formatArgument.simps isContainer_gate isContainer_kind)

lemma formatArgument_array:
  assumes "depth \<le> maxDepth L" "isContainer L (h a)" "is_Array (h a)"
    "\<not> (enableCircularHandling L \<and> a \<in> seen)"
  shows "formatArgument L h (JRef a) depth seen ind =
       (case formatArguments L h (items (h a)) (depth + 1)
               (if enableCircularHandling L then insert a seen else seen)
               (childIndentation L ind) of
          (Inl e, seen2) \<Rightarrow> (Inl e, seen2)
        | (Inr strs, seen2) \<Rightarrow> (Inr (arrayText L ind strs), seen2))"
proof (cases "items (h a) = []")
  case True
  with assms show ?thesis
    by (auto simp add: formatArgument.simps isContainer_gate isContainer_kind arrayText_def)
next
  case False
  with assms show ?thesis
    by (auto simp add: formatArgument.simps isContainer_gate isContainer_kind arrayText_def
          childIndentation_def Let_def
          dest: formatArguments_nonempty split: sum.splits prod.splits)
qed

lemma formatArgument_object:
  assumes "depth \<le> maxDepth L" "isContainer L (h a)" "\<not> is_Array (h a)"
    "\<not> (enableCircularHandling L \<and> a \<in> seen)"
  shows "formatArgument L h (JRef a) depth seen ind =
       (case Object_entries (h a) of
          Inl e \<Rightarrow> (Inr (failedToStringify e),
                    if enableCircularHandling L then insert a seen else seen)
        | Inr es \<Rightarrow>
           (case formatArguments L h (map snd es) (depth + 1)
               (if enableCircularHandling L then insert a seen else seen)
               (childIndentation L ind) of
              (Inl e, seen2) \<Rightarrow> (Inr (failedToStringify e), seen2)
            | (Inr strs, seen2) \<Rightarrow> (Inr (objectText L ind (map fst es) strs), seen2)))"
proof (cases "Object_entries (h a)")
  case (Inl e)
  with assms show ?thesis
    by (auto simp add: formatArgument.simps isContainer_gate isContainer_kind)
next
  case (Inr es)
  show ?thesis
  proof (cases "es = []")
    case True
    with Inr assms show ?thesis
      by (auto simp add: formatArgument.simps isContainer_gate isContainer_kind objectText_def)
  next
    case False
    with Inr assms show ?thesis
      by (auto simp add: formatArgument.simps isContainer_gate isContainer_kind objectText_def
            childIndentation_def Let_def split: sum.splits prod.splits)
  qed
qed


lemma formatArgument_primitive:
  "depth \<le> maxDepth L \<Longrightarrow> \<forall>a. arg \<noteq> JRef a \<Longrightarrow>
     formatArgument L h arg depth seen ind = (Inr (primitiveText L arg), seen)"
  by (cases arg) (simp_all add: formatArgument.simps primitiveText_def Let_def)

lemma childValues_array: "is_Array obj \<Longrightarrow> childValues obj = items obj"
  by (simp add: childValues_def)

lemma childValues_object:
  "\<not> is_Array obj \<Longrightarrow> Object_entries obj = Inr es \<Longrightarrow> childValues obj = map snd es"
  by (simp add: childValues_def)

lemma formatArgument_induct [case_names deep primitive noncontainer circular container]:
  assumes deep: "\<And>arg depth seen ind. maxDepth L < depth \<Longrightarrow> P arg depth seen ind"
    and prim: "\<And>arg depth seen ind.
        depth \<le> maxDepth L \<Longrightarrow> \<forall>a. arg \<noteq> JRef a \<Longrightarrow> P arg depth seen ind"
    and nonc: "\<And>a depth seen ind.
        depth \<le> maxDepth L \<Longrightarrow> \<not> C (h a) \<Longrightarrow> P (JRef a) depth seen ind"
    and circ: "\<And>a depth seen ind.
        depth \<le> maxDepth L \<Longrightarrow> C (h a) \<Longrightarrow> enableCircularHandling L \<Longrightarrow> a \<in> seen
        \<Longrightarrow> P (JRef a) depth seen ind"
    and cont: "\<And>a depth seen ind.
        depth \<le> maxDepth L \<Longrightarrow> C (h a) \<Longrightarrow> \<not> (enableCircularHandling L \<and> a \<in> seen)
        \<Longrightarrow> (\<And>c seen' ind'. P c (depth + 1) seen' ind')
        \<Longrightarrow> P (JRef a) depth seen ind"
  shows "P arg depth seen ind"
proof (induction "maxDepth L + 1 - depth" arbitrary: arg depth seen ind)
  case 0
  then show ?case using deep by simp
next
  case (Suc n)
  then have d: "depth \<le> maxDepth L" and n: "n = maxDepth L + 1 - (depth + 1)"
    by simp_all
  show ?case
  proof (cases arg)
    case (JRef a)
    show ?thesis
    proof (cases "C (h a)")
      case False
      with d JRef show ?thesis using nonc by simp
    next
      case True
      show ?thesis
      proof (cases "enableCircularHandling L \<and> a \<in> seen")
        case True
        with d JRef \<open>C (h a)\<close> show ?thesis using circ by simp
      next
        case False
        have "\<And>c seen' ind'. P c (depth + 1) seen' ind'"
          using Suc.hyps(1) [OF n] .
        with d JRef \<open>C (h a)\<close> False show ?thesis using cont by simp
      qed
    qed
  qed (use d prim in simp_all)
qed



subsection \<open>The branches of \<open>formatArgument\<close> in the first revision\<close>

lemma formatArgument_index_deep:
  "maxDepth L < depth \<Longrightarrow>
     formatArgument_index L h arg depth seen = (Inr ''[Max Depth Reached]'', seen)"
  by (simp add: formatArgument_index.simps)

lemma formatArgument_index_primitive:
  "depth \<le> maxDepth L \<Longrightarrow> \<forall>a. arg \<noteq> JRef a \<Longrightarrow>
     formatArgument_index L h arg depth seen = (Inr (primitiveText_index L arg), seen)"
  by (cases arg) (simp_all add: formatArgument_index.simps primitiveText_index_def)

lemma formatArguments_index_length:
  "formatArguments_index L h args depth seen = (Inr strs, seen') \<Longrightarrow> length strs = length args"
  by (induction args arbitrary: seen strs) (auto split: sum.splits prod.splits)

lemma isContainer_index_gate:
  "isContainer_index L obj \<Longrightarrow>
     (windowDefined (host L) \<and> ElementDefined (host L) \<and> is_Element obj) = False"
  by (auto simp: isContainer_index_def)

lemma isContainer_index_kind:
  "isContainer_index L obj \<Longrightarrow> is_Error obj = False"
  "isContainer_index L obj \<Longrightarrow> is_Date obj = False"
  "isContainer_index L obj \<Longrightarrow> is_RegExp obj = False"
  by (auto simp: isContainer_index_def)

lemma formatArgument_index_noncontainer:
  assumes "depth \<le> maxDepth L" "\<not> isContainer_index L (h a)"
  shows "formatArgument_index L h (JRef a) depth seen =
       (if windowDefined (host L) \<and> ElementDefined (host L) \<and> is_Element (h a)
        then Inr (formatDOMElement_index L (h a))
        else if is_Error (h a) then
          Inr (name (h a) @ '': '' @ message (h a) @ nl
               @ (case stack (h a) of None \<Rightarrow> [] | Some s \<Rightarrow> s))
        else if is_Date (h a) then toISOString (timeText (h a))
        else Inr (regexpToString (source (h a)) (flags (h a))), seen)"
proof -
  consider (el) "windowDefined (host L) \<and> ElementDefined (host L) \<and> is_Element (h a)"
    | (er) "\<not> (windowDefined (host L) \<and> ElementDefined (host L) \<and> is_Element (h a))"
        "is_Error (h a)"
    | (da) "\<not> (windowDefined (host L) \<and> ElementDefined (host L) \<and> is_Element (h a))"
        "\<not> is_Error (h a)" "is_Date (h a)"
    | (re) "\<not> (windowDefined (host L) \<and> ElementDefined (host L) \<and> is_Element (h a))"
        "\<not> is_Error (h a)" "\<not> is_Date (h a)" "is_RegExp (h a)"
    using assms(2) unfolding isContainer_index_def by blast
  then show ?thesis
  proof cases
    case el
    with assms(1) show ?thesis by (auto simp add: formatArgument_index.simps)
  next
    case er
    with assms(1) show ?thesis by (auto simp add: formatArgument_index.simps)
  next
    case da
    with assms(1) show ?thesis by (auto simp add: formatArgument_index.simps)
  next
    case re
    with assms(1) show ?thesis by (auto simp add: formatArgument_index.simps)
  qed
qed

lemma formatArgument_index_circular:
  "depth \<le> maxDepth L \<Longrightarrow> isContainer_index L (h a) \<Longrightarrow> enableCircularHandling L
     \<Longrightarrow> a \<in> seen
     \<Longrightarrow> formatArgument_index L h (JRef a) depth seen = (Inr ''[Circular Reference]'', seen)"
  by (simp add: formatArgument_index.simps isContainer_index_gate isContainer_index_kind)

lemma formatArgument_index_array:
  assumes "depth \<le> maxDepth L" "isContainer_index L (h a)" "is_Array (h a)"
    "\<not> (enableCircularHandling L \<and> a \<in> seen)"
  shows "formatArgument_index L h (JRef a) depth seen =
       (case formatArguments_index L h (items (h a)) (depth + 1)
               (if enableCircularHandling L then insert a seen else seen) of
          (Inl e, seen2) \<Rightarrow> (Inl e, seen2)
        | (Inr strs, seen2) \<Rightarrow> (Inr (arrayText_index strs), seen2))"
  using assms
  by (auto simp add: formatArgument_index.simps isContainer_index_gate isContainer_index_kind
        arrayText_index_def Let_def split: sum.splits prod.splits)

lemma formatArgument_index_object:
  assumes "depth \<le> maxDepth L" "isContainer_index L (h a)" "\<not> is_Array (h a)"
    "\<not> (enableCircularHandling L \<and> a \<in> seen)"
  shows "formatArgument_index L h (JRef a) depth seen =
       (case Object_entries (h a) of
          Inl e \<Rightarrow> (Inr (failedToStringify e),
                    if enableCircularHandling L then insert a seen else seen)
        | Inr es \<Rightarrow>
           (case formatArguments_index L h (map snd es) (depth + 1)
               (if enableCircularHandling L then insert a seen else seen) of
              (Inl e, seen2) \<Rightarrow> (Inr (failedToStringify e), seen2)
            | (Inr strs, seen2) \<Rightarrow> (Inr (objectText_index (map fst es) strs), seen2)))"
  using assms
  by (auto simp add: formatArgument_index.simps isContainer_index_gate isContainer_index_kind
        objectText_index_def Let_def split: sum.splits prod.splits)



lemmas example_defs =
  newLogger_def noOptions_def compactPlain_def nodeHost_def browserHost_def orDefault_def
  getEnvironment_def exampleHeap_def


section \<open>The claims\<close>

subsection \<open>C1: exceptions\<close>

text \<open>
  C1.  The formatter is meant never to throw, and the generic-object branch catches what
  its enumeration and its entries throw.  The \<open>Date\<close> branch does not: for an invalid
  date \<open>toISOString()\<close> throws a \<open>RangeError\<close>, which both revisions pass on to the
  caller.
\<close>

theorem formatArgument_invalid_date_throws:
  "formatArgument (newLogger noOptions nodeHost) exampleHeap (JRef 3) 0 {} []
     = (Inl (ThrownError ''Invalid time value''), {})
   \<and> formatArgument_index (newLogger noOptions nodeHost) exampleHeap (JRef 3) 0 {}
     = (Inl (ThrownError ''Invalid time value''), {})"
  by (simp add: formatArgument.simps formatArgument_index.simps example_defs toISOString_def)

text \<open>
  An invalid date is the only value on which the formatter throws: where every date
  of the heap is valid it returns a text.  What the enumeration of an object throws is
  caught and rendered, and so is an invalid date that an object holds.
\<close>

lemma formatArguments_returns:
  assumes "\<And>c seen. \<exists>s. fst (formatArgument L h c depth seen ind) = Inr s"
  shows "\<exists>strs. fst (formatArguments L h args depth seen ind) = Inr strs"
proof (induction args arbitrary: seen)
  case Nil
  show ?case by simp
next
  case (Cons item rest)
  obtain s seen1 where 1: "formatArgument L h item depth seen ind = (Inr s, seen1)"
    using assms [of item seen] by (cases "formatArgument L h item depth seen ind") auto
  obtain strs seen2 where 2: "formatArguments L h rest depth seen1 ind = (Inr strs, seen2)"
    using Cons.IH [of seen1] by (cases "formatArguments L h rest depth seen1 ind") auto
  from 1 2 show ?case by simp
qed

lemma formatArgument_returns_without_invalid_date:
  assumes "\<And>a. is_Date (h a) \<Longrightarrow> timeText (h a) \<noteq> None"
  shows "\<exists>s. fst (formatArgument L h arg depth seen ind) = Inr s"
proof (induction arg depth seen ind
    rule: formatArgument_induct [where L = L and h = h and C = "isContainer L"])
  case (deep arg depth seen ind)
  then show ?case by (simp add: formatArgument_deep)
next
  case (primitive arg depth seen ind)
  then show ?case by (simp add: formatArgument_primitive)
next
  case (noncontainer a depth seen ind)
  then show ?case
    using assms [of a]
    by (auto simp add: formatArgument_noncontainer toISOString_def split: option.splits)
next
  case (circular a depth seen ind)
  then show ?case by (simp add: formatArgument_circular)
next
  case (container a depth seen ind)
  let ?seen1 = "if enableCircularHandling L then insert a seen else seen"
  have rec: "\<exists>strs. fst (formatArguments L h args (depth + 1) ?seen1 i) = Inr strs" for args i
    by (rule formatArguments_returns) (rule container(4))
  show ?case
  proof (cases "is_Array (h a)")
    case True
    obtain strs s2 where "formatArguments L h (items (h a)) (depth + 1) ?seen1
        (childIndentation L ind) = (Inr strs, s2)"
      using rec [of "items (h a)" "childIndentation L ind"]
      by (cases "formatArguments L h (items (h a)) (depth + 1) ?seen1 (childIndentation L ind)")
        auto
    with container(1-3) True show ?thesis by (simp add: formatArgument_array)
  next
    case False
    with container(1-3) show ?thesis
      by (auto simp add: formatArgument_object split: sum.splits prod.splits)
  qed
qed

lemma formatArguments_index_returns:
  assumes "\<And>c seen. \<exists>s. fst (formatArgument_index L h c depth seen) = Inr s"
  shows "\<exists>strs. fst (formatArguments_index L h args depth seen) = Inr strs"
proof (induction args arbitrary: seen)
  case Nil
  show ?case by simp
next
  case (Cons item rest)
  obtain s seen1 where 1: "formatArgument_index L h item depth seen = (Inr s, seen1)"
    using assms [of item seen] by (cases "formatArgument_index L h item depth seen") auto
  obtain strs seen2 where 2: "formatArguments_index L h rest depth seen1 = (Inr strs, seen2)"
    using Cons.IH [of seen1] by (cases "formatArguments_index L h rest depth seen1") auto
  from 1 2 show ?case by simp
qed

lemma formatArgument_index_returns_without_invalid_date:
  assumes "\<And>a. is_Date (h a) \<Longrightarrow> timeText (h a) \<noteq> None"
  shows "\<exists>s. fst (formatArgument_index L h arg depth seen) = Inr s"
proof (induction arg depth seen "[] :: string"
    rule: formatArgument_induct [where L = L and h = h and C = "isContainer_index L"])
  case (deep arg depth seen)
  then show ?case by (simp add: formatArgument_index_deep)
next
  case (primitive arg depth seen)
  then show ?case by (simp add: formatArgument_index_primitive)
next
  case (noncontainer a depth seen)
  then show ?case
    using assms [of a]
    by (auto simp add: formatArgument_index_noncontainer toISOString_def split: option.splits)
next
  case (circular a depth seen)
  then show ?case by (simp add: formatArgument_index_circular)
next
  case (container a depth seen)
  let ?seen1 = "if enableCircularHandling L then insert a seen else seen"
  have rec: "\<exists>strs. fst (formatArguments_index L h args (depth + 1) ?seen1) = Inr strs" for args
    by (rule formatArguments_index_returns) (rule container(4))
  show ?case
  proof (cases "is_Array (h a)")
    case True
    obtain strs s2 where
      "formatArguments_index L h (items (h a)) (depth + 1) ?seen1 = (Inr strs, s2)"
      using rec [of "items (h a)"]
      by (cases "formatArguments_index L h (items (h a)) (depth + 1) ?seen1") auto
    with container(1-3) True show ?thesis by (simp add: formatArgument_index_array)
  next
    case False
    with container(1-3) show ?thesis
      by (auto simp add: formatArgument_index_object split: sum.splits prod.splits)
  qed
qed

lemma enumeration_failure_caught:
  assumes "depth \<le> maxDepth L" "h a = OpaqueObj e" "\<not> (enableCircularHandling L \<and> a \<in> seen)"
  shows "fst (formatArgument L h (JRef a) depth seen ind) = Inr (failedToStringify e)"
    and "fst (formatArgument_index L h (JRef a) depth seen) = Inr (failedToStringify e)"
  using assms
  by (simp_all add: formatArgument_object formatArgument_index_object isContainer_def
        isContainer_index_def)

lemma nested_invalid_date:
  "formatArgument (newLogger compactPlain nodeHost) exampleHeap (JRef 6) 0 {} []
     = (Inr ''[Object: failed to stringify - Invalid time value]'', {6})"
  by (simp add: formatArgument.simps example_defs toISOString_def failedToStringify_def)

subsection \<open>C2: the depth limit\<close>







lemma exampleHeap_chain: "10 \<le> i \<Longrightarrow> exampleHeap i = ArrayObj [JRef (i + 1)]"
  by (simp add: exampleHeap_def)

lemma chain_output:
  "formatArgument (newLogger compactPlain nodeHost) exampleHeap (JRef 10) 0 {} []
         = (Inr ''[[[[[[[Max Depth Reached]]]]]]]'', {10, 11, 12, 13, 14, 15})"
  by (simp add: formatArgument.simps exampleHeap_chain newLogger_def noOptions_def compactPlain_def
        nodeHost_def orDefault_def getEnvironment_def colorizeText_def insert_commute)


subsection \<open>C3: strings and truncation\<close>

text \<open>
  C3 as stated fails in the latest revision, which puts every string between double
  quotes: \<open>"ab"\<close> is returned with four characters, not as \<open>ab\<close>.
\<close>

theorem string_unchanged_counterexample:
  "length ''ab'' \<le> maxStringLength (newLogger compactPlain nodeHost)
   \<and> fst (formatArgument (newLogger compactPlain nodeHost) exampleHeap (JString ''ab'') 0 {} [])
       = Inr (CHR 0x22 # ''ab'' @ [CHR 0x22])
   \<and> fst (formatArgument (newLogger compactPlain nodeHost) exampleHeap (JString ''ab'') 0 {} [])
       \<noteq> Inr ''ab''"
  by (simp add: formatArgument.simps example_defs colorizeText_def dq_def)

text \<open>
  C3, amended.  A string no longer than \<open>maxStringLength\<close> (the boundary included) is
  returned unchanged by the first revision and between double quotes, as one coloured
  token, by the latest; neither adds a truncation marker.  A longer string gives its
  first \<open>maxStringLength\<close> characters, then \<open>...\<close>, then the marker
  \<open>[truncated, N chars total]\<close> with \<open>N\<close> the length of the whole string; the latest
  revision puts the quotes around the characters and the dots.
\<close>

theorem string_truncation:
  assumes "depth \<le> maxDepth L"
  shows "(length s \<le> maxStringLength L \<longrightarrow>
            formatArgument_index L h (JString s) depth seen = (Inr s, seen) \<and>
            formatArgument L h (JString s) depth seen ind
              = (Inr (colorizeText L (dq @ s @ dq) CString), seen))
       \<and> (length s > maxStringLength L \<longrightarrow>
            formatArgument_index L h (JString s) depth seen
              = (Inr (take (maxStringLength L) s @ ''...''
                      @ '' [truncated, '' @ showNat (length s) @ '' chars total]''), seen) \<and>
            formatArgument L h (JString s) depth seen ind
              = (Inr (colorizeText L (dq @ take (maxStringLength L) s @ ''...'' @ dq) CString
                      @ colorizeText L
                          ('' [truncated, '' @ showNat (length s) @ '' chars total]'')
                          CTruncated), seen))"
  using assms
  by (simp add: formatArgument.simps formatArgument_index.simps substring0_def Let_def)

theorem string_truncation_witness:
  "formatArgument_index (newLogger (noOptions\<lparr>opt_maxStringLength := Some 3\<rparr>) nodeHost)
       exampleHeap (JString ''abc'') 0 {} = (Inr ''abc'', {})
   \<and> formatArgument_index (newLogger (noOptions\<lparr>opt_maxStringLength := Some 3\<rparr>) nodeHost)
       exampleHeap (JString ''abcd'') 0 {} = (Inr ''abc... [truncated, 4 chars total]'', {})
   \<and> formatArgument (newLogger (compactPlain\<lparr>opt_maxStringLength := Some 3\<rparr>) nodeHost)
       exampleHeap (JString ''abcd'') 0 {} []
       = (Inr (CHR 0x22 # ''abc...'' @ CHR 0x22 # '' [truncated, 4 chars total]''), {})"
  using
    string_truncation [of 0 "newLogger (noOptions\<lparr>opt_maxStringLength := Some 3\<rparr>) nodeHost"
      "''abc''" exampleHeap "{}" "[]"]
    string_truncation [of 0 "newLogger (noOptions\<lparr>opt_maxStringLength := Some 3\<rparr>) nodeHost"
      "''abcd''" exampleHeap "{}" "[]"]
    string_truncation [of 0 "newLogger (compactPlain\<lparr>opt_maxStringLength := Some 3\<rparr>) nodeHost"
      "''abcd''" exampleHeap "{}" "[]"]
  by (simp add: newLogger_def noOptions_def compactPlain_def orDefault_def colorizeText_def
        dq_def showNat.simps digit_def)

subsection \<open>C4: circular references\<close>








lemma shared_sibling_output:
  "formatArgument (newLogger compactPlain nodeHost) exampleHeap (JRef 4) 0 {} []
     = (Inr ''[[1, 2, 3], [Circular Reference]]'', {1, 4})
   \<and> formatArgument_index (newLogger noOptions nodeHost) exampleHeap (JRef 4) 0 {}
     = (Inr ''[[1, 2, 3], [Circular Reference]]'', {1, 4})"
  by (simp add: formatArgument.simps formatArgument_index.simps example_defs colorizeText_def
        String_number_def showInt_def showNat.simps digit_def insert_commute)


subsection \<open>C5: termination\<close>

lemma formatArguments_stack_eq:
  assumes "\<And>c seen. formatArgument_stack k L h c depth seen ind
      = Some (formatArgument L h c depth seen ind)"
  shows "formatArguments_stack k L h args depth seen ind
      = Some (formatArguments L h args depth seen ind)"
  using assms by (induction args arbitrary: seen) (simp_all split: prod.splits sum.splits)

lemma formatArgument_stack_step:
  assumes "depth \<le> maxDepth L \<Longrightarrow> (\<And>args s i. formatArguments_stack k L h args (depth + 1) s i
      = Some (formatArguments L h args (depth + 1) s i))"
  shows "formatArgument_stack (Suc k) L h arg depth seen ind
      = Some (formatArgument L h arg depth seen ind)"
proof (cases "depth \<le> maxDepth L")
  case False
  then show ?thesis by (simp add: formatArgument_stack.simps(2) formatArgument.simps)
next
  case True
  have rec: "formatArguments_stack k L h args (Suc depth) s i
      = Some (formatArguments L h args (Suc depth) s i)" for args s i
    using assms [OF True, of args s i] by simp
  show ?thesis
  proof (cases arg)
    case (JRef a)
    show ?thesis
    proof (cases "isContainer L (h a)")
      case nc: False
      then consider
          (el) "isBrowser (env L) \<and> windowDefined (host L) \<and> ElementDefined (host L)
                \<and> is_Element (h a)"
        | (er) "\<not> (isBrowser (env L) \<and> windowDefined (host L) \<and> ElementDefined (host L)
                \<and> is_Element (h a))" "is_Error (h a)"
        | (da) "\<not> (isBrowser (env L) \<and> windowDefined (host L) \<and> ElementDefined (host L)
                \<and> is_Element (h a))" "\<not> is_Error (h a)" "is_Date (h a)"
        | (re) "\<not> (isBrowser (env L) \<and> windowDefined (host L) \<and> ElementDefined (host L)
                \<and> is_Element (h a))" "\<not> is_Error (h a)" "\<not> is_Date (h a)" "is_RegExp (h a)"
        unfolding isContainer_def by blast
      then show ?thesis
      proof cases
        case el
        with True show ?thesis
          by (auto simp add: JRef formatArgument_stack.simps(2) formatArgument.simps)
      next
        case er
        with True show ?thesis
          by (auto simp add: JRef formatArgument_stack.simps(2) formatArgument.simps)
      next
        case da
        with True show ?thesis
          by (auto simp add: JRef formatArgument_stack.simps(2) formatArgument.simps
                split: sum.splits)
      next
        case re
        with True show ?thesis
          by (auto simp add: JRef formatArgument_stack.simps(2) formatArgument.simps)
      qed
    next
      case c: True
      note k = isContainer_gate [OF c] isContainer_kind [OF c]
      show ?thesis
      proof (cases "enableCircularHandling L \<and> a \<in> seen")
        case hit: True
        with True show ?thesis
          by (simp add: JRef formatArgument_stack.simps(2) formatArgument.simps k)
      next
        case nohit: False
        show ?thesis
        proof (cases "is_Array (h a)")
          case arr: True
          show ?thesis
          proof (cases "items (h a) = []")
            case True
            with \<open>depth \<le> maxDepth L\<close> nohit arr show ?thesis
              by (auto simp add: JRef formatArgument_stack.simps(2) formatArgument.simps k)
          next
            case ne: False
            show ?thesis
            proof (cases "prettyPrint L")
              case True
              with \<open>depth \<le> maxDepth L\<close> nohit arr ne show ?thesis
                by (auto simp add: JRef formatArgument_stack.simps(2) formatArgument.simps k rec
                      Let_def split: prod.splits sum.splits)
            next
              case False
              with \<open>depth \<le> maxDepth L\<close> nohit arr ne show ?thesis
                by (auto simp add: JRef formatArgument_stack.simps(2) formatArgument.simps k rec
                      Let_def split: prod.splits sum.splits)
            qed
          qed
        next
          case obj: False
          show ?thesis
          proof (cases "Object_entries (h a)")
            case (Inl e)
            with \<open>depth \<le> maxDepth L\<close> nohit obj show ?thesis
              by (auto simp add: JRef formatArgument_stack.simps(2) formatArgument.simps k)
          next
            case (Inr es)
            show ?thesis
            proof (cases "es = []")
              case True
              with \<open>depth \<le> maxDepth L\<close> nohit obj Inr show ?thesis
                by (auto simp add: JRef formatArgument_stack.simps(2) formatArgument.simps k)
            next
              case ne: False
              show ?thesis
              proof (cases "prettyPrint L")
                case True
                with \<open>depth \<le> maxDepth L\<close> nohit obj Inr ne show ?thesis
                  by (auto simp add: JRef formatArgument_stack.simps(2) formatArgument.simps k
                        rec Let_def split: prod.splits sum.splits)
              next
                case False
                with \<open>depth \<le> maxDepth L\<close> nohit obj Inr ne show ?thesis
                  by (auto simp add: JRef formatArgument_stack.simps(2) formatArgument.simps k
                        rec Let_def split: prod.splits sum.splits)
              qed
            qed
          qed
        qed
      qed
    qed
  qed (simp_all add: True formatArgument_stack.simps(2) formatArgument.simps Let_def)
qed

lemma formatArgument_stack_eq:
  "maxDepth L + 1 - depth < k \<Longrightarrow>
     formatArgument_stack k L h arg depth seen ind = Some (formatArgument L h arg depth seen ind)"
proof (induction k arbitrary: arg depth seen ind)
  case 0
  then show ?case by simp
next
  case (Suc k)
  show ?case
  proof (rule formatArgument_stack_step)
    fix args s i
    assume "depth \<le> maxDepth L"
    with Suc.prems have "maxDepth L + 1 - (depth + 1) < k" by simp
    then show "formatArguments_stack k L h args (depth + 1) s i
      = Some (formatArguments L h args (depth + 1) s i)"
      by (intro formatArguments_stack_eq Suc.IH)
  qed
qed


lemma formatArguments_index_stack_eq:
  assumes "\<And>c seen. formatArgument_index_stack k L h c depth seen
      = Some (formatArgument_index L h c depth seen)"
  shows "formatArguments_index_stack k L h args depth seen
      = Some (formatArguments_index L h args depth seen)"
  using assms by (induction args arbitrary: seen) (simp_all split: prod.splits sum.splits)

lemma formatArgument_index_stack_step:
  assumes "depth \<le> maxDepth L \<Longrightarrow> (\<And>args s. formatArguments_index_stack k L h args (depth + 1) s
      = Some (formatArguments_index L h args (depth + 1) s))"
  shows "formatArgument_index_stack (Suc k) L h arg depth seen
      = Some (formatArgument_index L h arg depth seen)"
proof (cases "depth \<le> maxDepth L")
  case False
  then show ?thesis
    by (simp add: formatArgument_index_stack.simps(2) formatArgument_index.simps)
next
  case True
  have rec: "formatArguments_index_stack k L h args (Suc depth) s
      = Some (formatArguments_index L h args (Suc depth) s)" for args s
    using assms [OF True, of args s] by simp
  show ?thesis
  proof (cases arg)
    case (JRef a)
    show ?thesis
    proof (cases "isContainer_index L (h a)")
      case nc: False
      then consider
          (el) "windowDefined (host L) \<and> ElementDefined (host L) \<and> is_Element (h a)"
        | (er) "\<not> (windowDefined (host L) \<and> ElementDefined (host L) \<and> is_Element (h a))"
            "is_Error (h a)"
        | (da) "\<not> (windowDefined (host L) \<and> ElementDefined (host L) \<and> is_Element (h a))"
            "\<not> is_Error (h a)" "is_Date (h a)"
        | (re) "\<not> (windowDefined (host L) \<and> ElementDefined (host L) \<and> is_Element (h a))"
            "\<not> is_Error (h a)" "\<not> is_Date (h a)" "is_RegExp (h a)"
        unfolding isContainer_index_def by blast
      then show ?thesis
      proof cases
        case el
        with True show ?thesis
          by (auto simp add: JRef formatArgument_index_stack.simps(2) formatArgument_index.simps)
      next
        case er
        with True show ?thesis
          by (auto simp add: JRef formatArgument_index_stack.simps(2) formatArgument_index.simps)
      next
        case da
        with True show ?thesis
          by (auto simp add: JRef formatArgument_index_stack.simps(2) formatArgument_index.simps)
      next
        case re
        with True show ?thesis
          by (auto simp add: JRef formatArgument_index_stack.simps(2) formatArgument_index.simps)
      qed
    next
      case c: True
      note k = isContainer_index_gate [OF c] isContainer_index_kind [OF c]
      show ?thesis
      proof (cases "enableCircularHandling L \<and> a \<in> seen")
        case hit: True
        with True show ?thesis
          by (simp add: JRef formatArgument_index_stack.simps(2) formatArgument_index.simps k)
      next
        case nohit: False
        show ?thesis
        proof (cases "is_Array (h a)")
          case arr: True
          with \<open>depth \<le> maxDepth L\<close> nohit show ?thesis
            by (auto simp add: JRef formatArgument_index_stack.simps(2)
                  formatArgument_index.simps k rec Let_def split: prod.splits sum.splits)
        next
          case obj: False
          show ?thesis
          proof (cases "Object_entries (h a)")
            case (Inl e)
            with \<open>depth \<le> maxDepth L\<close> nohit obj show ?thesis
              by (auto simp add: JRef formatArgument_index_stack.simps(2)
                    formatArgument_index.simps k)
          next
            case (Inr es)
            with \<open>depth \<le> maxDepth L\<close> nohit obj show ?thesis
              by (auto simp add: JRef formatArgument_index_stack.simps(2)
                    formatArgument_index.simps k rec Let_def split: prod.splits sum.splits)
          qed
        qed
      qed
    qed
  qed (simp_all add: True formatArgument_index_stack.simps(2) formatArgument_index.simps)
qed

lemma formatArgument_index_stack_eq:
  "maxDepth L + 1 - depth < k \<Longrightarrow>
     formatArgument_index_stack k L h arg depth seen
       = Some (formatArgument_index L h arg depth seen)"
proof (induction k arbitrary: arg depth seen)
  case 0
  then show ?case by simp
next
  case (Suc k)
  show ?case
  proof (rule formatArgument_index_stack_step)
    fix args s
    assume "depth \<le> maxDepth L"
    with Suc.prems have "maxDepth L + 1 - (depth + 1) < k" by simp
    then show "formatArguments_index_stack k L h args (depth + 1) s
      = Some (formatArguments_index L h args (depth + 1) s)"
      by (intro formatArguments_index_stack_eq Suc.IH)
  qed
qed

text \<open>
  C5.  With a call stack of \<open>maxDepth + 2\<close> frames (the first call and \<open>maxDepth + 1\<close>
  levels of recursion below it) the formatter returns on every value and every heap,
  cyclic ones and circular handling switched off included, and what it returns is the
  value of \<open>formatArgument\<close>.  More generally a call at depth \<open>depth\<close> returns as soon
  as more than \<open>maxDepth + 1 - depth\<close> frames are left.
\<close>

theorem formatArgument_terminates:
  "(maxDepth L + 1 - depth < k \<longrightarrow>
      formatArgument_stack k L h arg depth seen ind
        = Some (formatArgument L h arg depth seen ind)
      \<and> formatArgument_index_stack k L h arg depth seen
        = Some (formatArgument_index L h arg depth seen))
   \<and> formatArgument_stack (maxDepth L + 2) L h arg 0 seen ind
       = Some (formatArgument L h arg 0 seen ind)
   \<and> formatArgument_index_stack (maxDepth L + 2) L h arg 0 seen
       = Some (formatArgument_index L h arg 0 seen)"
  using formatArgument_stack_eq [of L depth k h arg seen ind]
    formatArgument_index_stack_eq [of L depth k h arg seen]
    formatArgument_stack_eq [of L 0 "maxDepth L + 2" h arg seen ind]
    formatArgument_index_stack_eq [of L 0 "maxDepth L + 2" h arg seen]
  by simp

lemma cyclic_unchecked_output:
  "formatArgument (newLogger (compactPlain\<lparr>opt_enableCircularHandling := Some False\<rparr>) nodeHost)
       exampleHeap (JRef 2) 0 {} []
     = (Inr ''{self: {self: {self: {self: {self: {self: [Max Depth Reached]}}}}}}'', {})"
  by (simp add: formatArgument.simps example_defs colorizeText_def)

theorem formatArgument_terminates_witness:
  "formatArgument_stack 7
       (newLogger (compactPlain\<lparr>opt_enableCircularHandling := Some False\<rparr>) nodeHost)
       exampleHeap (JRef 2) 0 {} []
     = Some (Inr ''{self: {self: {self: {self: {self: {self: [Max Depth Reached]}}}}}}'', {})
   \<and> (\<exists>r. formatArgument_index_stack 7
       (newLogger (noOptions\<lparr>opt_enableCircularHandling := Some False\<rparr>) nodeHost)
       exampleHeap (JRef 2) 0 {} = Some r)"
proof -
  let ?L = "newLogger (compactPlain\<lparr>opt_enableCircularHandling := Some False\<rparr>) nodeHost"
  let ?D = "newLogger (noOptions\<lparr>opt_enableCircularHandling := Some False\<rparr>) nodeHost"
  have md: "maxDepth ?L + 1 - 0 < 7" "maxDepth ?D + 1 - 0 < 7"
    by (simp_all add: example_defs)
  show ?thesis
    using formatArgument_terminates [of ?L 0 7 exampleHeap "JRef 2" "{}" "[]"]
      formatArgument_terminates [of ?D 0 7 exampleHeap "JRef 2" "{}" "[]"]
      md cyclic_unchecked_output
    by simp
qed


lemma stack_bound_reached:
  "formatArgument_stack (Suc (Suc 0))
       (newLogger (compactPlain\<lparr>opt_maxDepth := Some 1\<rparr>) nodeHost)
       exampleHeap (JRef 10) 0 {} [] = None
   \<and> formatArgument_stack (Suc (Suc (Suc 0)))
       (newLogger (compactPlain\<lparr>opt_maxDepth := Some 1\<rparr>) nodeHost)
       exampleHeap (JRef 10) 0 {} [] = Some (Inr ''[[[Max Depth Reached]]]'', {10, 11})"
  by (simp add: formatArgument_stack.simps(2) exampleHeap_chain newLogger_def
        noOptions_def compactPlain_def nodeHost_def orDefault_def getEnvironment_def
        colorizeText_def insert_commute)

subsection \<open>C6: pretty and compact output\<close>


lemma stripWhitespace_Nil [simp]: "stripWhitespace [] = []"
  by (simp add: stripWhitespace_def)


lemma stripWhitespace_getIndentation [simp]: "stripWhitespace (getIndentation L n) = []"
  by (simp add: stripWhitespace_def getIndentation_def repeat_space_def isWhitespace_def)

lemma colorizeText_prettyPrint [simp]:
  "colorizeText (L\<lparr>prettyPrint := b\<rparr>) t k = colorizeText L t k"
  by (simp add: colorizeText_def)

lemma primitiveText_prettyPrint [simp]:
  "primitiveText (L\<lparr>prettyPrint := b\<rparr>) arg = primitiveText L arg"
  by (simp add: primitiveText_def split: jsval.splits)

lemma formatDOMElement_prettyPrint [simp]:
  "formatDOMElement (L\<lparr>prettyPrint := b\<rparr>) el = formatDOMElement L el"
  by (simp add: formatDOMElement_def)

lemma isContainer_prettyPrint [simp]:
  "isContainer (L\<lparr>prettyPrint := b\<rparr>) obj = isContainer L obj"
  by (simp add: isContainer_def)








lemma content_simps [simp]:
  "content (Inl e) = Inl e" "content (Inr s) = Inr (stripWhitespace s)"
  "contents (Inl e) = Inl e" "contents (Inr strs) = Inr (map stripWhitespace strs)"
  by (simp_all add: content_def contents_def)





lemma pretty_output:
  "formatArgument (newLogger (noOptions\<lparr>opt_colors := Some False\<rparr>) nodeHost)
       exampleHeap (JRef 0) 0 {} []
     = (Inr (''{'' @ nl @ ''  a: 1,'' @ nl @ ''  b: ['' @ nl @ ''    1,'' @ nl @ ''    2,'' @ nl
             @ ''    3'' @ nl @ ''  ]'' @ nl @ ''}''), {0, 1})"
  by (simp add: formatArgument.simps example_defs colorizeText_def String_number_def showInt_def
        showNat.simps digit_def insert_commute getIndentation_def repeat_space_def
        numeral_2_eq_2)


subsection \<open>C7: generic objects\<close>






subsection \<open>C8: numbers, booleans, symbols and big integers\<close>

text \<open>
  C8 as stated fails in the first revision: a big integer gets no suffix there, so
  \<open>10n\<close> and \<open>10\<close> give the same text.
\<close>

theorem bigint_suffix_counterexample:
  "formatArgument_index (newLogger noOptions nodeHost) exampleHeap (JBigInt 10) 0 {}
     = (Inr ''10'', {})
   \<and> formatArgument_index (newLogger noOptions nodeHost) exampleHeap (JNumber 10) 0 {}
     = (Inr ''10'', {})"
  by (simp add: formatArgument_index.simps example_defs String_bigint_def String_number_def
        showInt_def showNat.simps digit_def)

text \<open>
  C8, amended.  In the latest revision a big integer gives \<open>String(arg)\<close> followed by
  \<open>n\<close>, and a number, a boolean and a symbol give \<open>String(arg)\<close>, each as one coloured
  token.  In the first revision all four give \<open>String(arg)\<close>, the big integer without a
  suffix.
\<close>

theorem primitive_literals:
  assumes "depth \<le> maxDepth L"
  shows "formatArgument L h (JBigInt n) depth seen ind
           = (Inr (colorizeText L (String_bigint n @ ''n'') CNumber), seen)
       \<and> formatArgument L h (JNumber m) depth seen ind
           = (Inr (colorizeText L (String_number m) CNumber), seen)
       \<and> formatArgument L h (JBoolean b) depth seen ind
           = (Inr (colorizeText L (String_boolean b) CBoolean), seen)
       \<and> formatArgument L h (JSymbol d) depth seen ind
           = (Inr (colorizeText L (String_symbol d) CSymbol), seen)
       \<and> formatArgument_index L h (JBigInt n) depth seen = (Inr (String_bigint n), seen)
       \<and> formatArgument_index L h (JNumber m) depth seen = (Inr (String_number m), seen)
       \<and> formatArgument_index L h (JBoolean b) depth seen = (Inr (String_boolean b), seen)
       \<and> formatArgument_index L h (JSymbol d) depth seen = (Inr (String_symbol d), seen)"
  using assms by (simp add: formatArgument.simps formatArgument_index.simps)

theorem primitive_literals_witness:
  "formatArgument (newLogger compactPlain nodeHost) exampleHeap (JBigInt 42) 0 {} []
     = (Inr ''42n'', {})
   \<and> formatArgument (newLogger compactPlain nodeHost) exampleHeap (JNumber (- 7)) 0 {} []
     = (Inr ''-7'', {})
   \<and> formatArgument (newLogger compactPlain nodeHost) exampleHeap (JBoolean True) 0 {} []
     = (Inr ''true'', {})
   \<and> formatArgument (newLogger compactPlain nodeHost) exampleHeap (JSymbol ''id'') 0 {} []
     = (Inr ''Symbol(id)'', {})
   \<and> formatArgument_index (newLogger compactPlain nodeHost) exampleHeap (JBigInt 42) 0 {}
     = (Inr ''42'', {})"
  using primitive_literals [of 0 "newLogger compactPlain nodeHost" exampleHeap 42 "{}" "[]"
      "- 7" True "''id''"]
  by (simp add: newLogger_def noOptions_def compactPlain_def orDefault_def colorizeText_def
        String_bigint_def String_number_def String_boolean_def String_symbol_def
        showInt_def showNat.simps digit_def)

subsection \<open>C9: host elements\<close>

text \<open>
  C9 as stated fails where the runtime is not a browser: \<open>formatArgument\<close> then never
  calls \<open>formatDOMElement\<close>, and the element is formatted by the generic-object
  branch.  Under Node an element without own enumerable properties gives \<open>{}\<close>, not
  \<open>[DOM Element]\<close>.
\<close>

theorem element_outside_browser_counterexample:
  "is_Element (exampleHeap 5)
   \<and> \<not> isBrowser (env (newLogger compactPlain nodeHost))
   \<and> formatArgument (newLogger compactPlain nodeHost) exampleHeap (JRef 5) 0 {} []
       = (Inr ''{}'', {5})
   \<and> formatArgument_index (newLogger compactPlain nodeHost) exampleHeap (JRef 5) 0 {}
       = (Inr ''{}'', {5})"
  by (simp add: formatArgument.simps formatArgument_index.simps example_defs colorizeText_def)

text \<open>
  C9, amended.  \<open>formatDOMElement\<close> gives \<open>[DOM Element]\<close> in \<open>disabled\<close> mode and
  whenever the runtime is not a browser; in a browser, \<open>summary\<close> mode gives the
  lower-case tag name with the number of attributes and of children, and \<open>inspect\<close>
  mode the lower-case tag name with every attribute as \<open>name="value"\<close>, followed by
  the number of children only when there are some.  \<open>formatArgument\<close> hands an element to
  \<open>formatDOMElement\<close> only in a browser where \<open>window\<close> and \<open>Element\<close> are defined
  (the first revision: where \<open>window\<close> and \<open>Element\<close> are defined); anywhere else the
  element is formatted as a generic object, from its own enumerable entries.
\<close>

theorem element_rendering:
  "(domElementFormat L = Disabled \<or> \<not> isBrowser (env L)
      \<longrightarrow> formatDOMElement L el = ''[DOM Element]'')
   \<and> (isBrowser (env L) \<and> domElementFormat L = Summary \<longrightarrow>
        formatDOMElement L (Element t ats n es)
          = ''<'' @ toLowerCase t @ ''> with '' @ showNat (length ats) @ '' attributes and ''
            @ showNat n @ '' children'')
   \<and> (isBrowser (env L) \<and> domElementFormat L = Inspect \<longrightarrow>
        formatDOMElement L (Element t ats n es)
          = ''<'' @ toLowerCase t @ inspectAttributes ats @ ''>''
            @ (if n > 0 then '' ('' @ showNat n @ '' children)'' else []))
   \<and> (isBrowser (env L) \<or> domElementFormat L = Disabled \<longrightarrow>
        formatDOMElement_index L (Element t ats n es) = formatDOMElement L (Element t ats n es))
   \<and> (depth \<le> maxDepth L \<and> is_Element (h a) \<longrightarrow>
        (isBrowser (env L) \<and> windowDefined (host L) \<and> ElementDefined (host L) \<longrightarrow>
           formatArgument L h (JRef a) depth seen ind = (Inr (formatDOMElement L (h a)), seen))
        \<and> (\<not> (isBrowser (env L) \<and> windowDefined (host L) \<and> ElementDefined (host L))
             \<and> \<not> (enableCircularHandling L \<and> a \<in> seen) \<longrightarrow>
           formatArgument L h (JRef a) depth seen ind =
             (case formatArguments L h (map snd (elementEntries (h a))) (depth + 1)
                     (if enableCircularHandling L then insert a seen else seen)
                     (childIndentation L ind) of
                (Inl e, seen2) \<Rightarrow> (Inr (failedToStringify e), seen2)
              | (Inr strs, seen2) \<Rightarrow>
                  (Inr (objectText L ind (map fst (elementEntries (h a))) strs), seen2)))
        \<and> (windowDefined (host L) \<and> ElementDefined (host L) \<longrightarrow>
           formatArgument_index L h (JRef a) depth seen
             = (Inr (formatDOMElement_index L (h a)), seen))
        \<and> (\<not> (windowDefined (host L) \<and> ElementDefined (host L))
             \<and> \<not> (enableCircularHandling L \<and> a \<in> seen) \<longrightarrow>
           formatArgument_index L h (JRef a) depth seen =
             (case formatArguments_index L h (map snd (elementEntries (h a))) (depth + 1)
                     (if enableCircularHandling L then insert a seen else seen) of
                (Inl e, seen2) \<Rightarrow> (Inr (failedToStringify e), seen2)
              | (Inr strs, seen2) \<Rightarrow>
                  (Inr (objectText_index (map fst (elementEntries (h a))) strs), seen2))))"
proof -
  have dom: "(domElementFormat L = Disabled \<or> \<not> isBrowser (env L)
      \<longrightarrow> formatDOMElement L el = ''[DOM Element]'')
   \<and> (isBrowser (env L) \<and> domElementFormat L = Summary \<longrightarrow>
        formatDOMElement L (Element t ats n es)
          = ''<'' @ toLowerCase t @ ''> with '' @ showNat (length ats) @ '' attributes and ''
            @ showNat n @ '' children'')
   \<and> (isBrowser (env L) \<and> domElementFormat L = Inspect \<longrightarrow>
        formatDOMElement L (Element t ats n es)
          = ''<'' @ toLowerCase t @ inspectAttributes ats @ ''>''
            @ (if n > 0 then '' ('' @ showNat n @ '' children)'' else []))"
    by (auto simp add: formatDOMElement_def inspectChildren_def)
  have domi: "isBrowser (env L) \<or> domElementFormat L = Disabled \<longrightarrow>
        formatDOMElement_index L (Element t ats n es) = formatDOMElement L (Element t ats n es)"
    by (auto simp add: formatDOMElement_def formatDOMElement_index_def)
  have arg: "formatArgument L h (JRef a) depth seen ind = (Inr (formatDOMElement L (h a)), seen)"
    if "depth \<le> maxDepth L" "is_Element (h a)"
      "isBrowser (env L) \<and> windowDefined (host L) \<and> ElementDefined (host L)"
    using that by (simp add: formatArgument.simps)
  have argi: "formatArgument_index L h (JRef a) depth seen
      = (Inr (formatDOMElement_index L (h a)), seen)"
    if "depth \<le> maxDepth L" "is_Element (h a)"
      "windowDefined (host L) \<and> ElementDefined (host L)"
    using that by (simp add: formatArgument_index.simps)
  have ent: "Object_entries (h a) = Inr (elementEntries (h a))" if "is_Element (h a)"
    using that by (cases "h a") simp_all
  have gen: "formatArgument L h (JRef a) depth seen ind =
             (case formatArguments L h (map snd (elementEntries (h a))) (depth + 1)
                     (if enableCircularHandling L then insert a seen else seen)
                     (childIndentation L ind) of
                (Inl e, seen2) \<Rightarrow> (Inr (failedToStringify e), seen2)
              | (Inr strs, seen2) \<Rightarrow>
                  (Inr (objectText L ind (map fst (elementEntries (h a))) strs), seen2))"
    if "depth \<le> maxDepth L" "is_Element (h a)"
      "\<not> (isBrowser (env L) \<and> windowDefined (host L) \<and> ElementDefined (host L))"
      "\<not> (enableCircularHandling L \<and> a \<in> seen)"
  proof -
    have c: "isContainer L (h a)" and na: "\<not> is_Array (h a)"
      using that(2,3) by (cases "h a"; auto simp add: isContainer_def)+
    show ?thesis
      using that(1,4) c na by (simp add: formatArgument_object ent [OF that(2)])
  qed
  have geni: "formatArgument_index L h (JRef a) depth seen =
             (case formatArguments_index L h (map snd (elementEntries (h a))) (depth + 1)
                     (if enableCircularHandling L then insert a seen else seen) of
                (Inl e, seen2) \<Rightarrow> (Inr (failedToStringify e), seen2)
              | (Inr strs, seen2) \<Rightarrow>
                  (Inr (objectText_index (map fst (elementEntries (h a))) strs), seen2))"
    if "depth \<le> maxDepth L" "is_Element (h a)"
      "\<not> (windowDefined (host L) \<and> ElementDefined (host L))"
      "\<not> (enableCircularHandling L \<and> a \<in> seen)"
  proof -
    have c: "isContainer_index L (h a)" and na: "\<not> is_Array (h a)"
      using that(2,3) by (cases "h a"; auto simp add: isContainer_index_def)+
    show ?thesis
      using that(1,4) c na by (simp add: formatArgument_index_object ent [OF that(2)])
  qed
  show ?thesis
    using dom domi arg argi gen geni by blast
qed

theorem element_rendering_witness:
  "formatDOMElement (newLogger (noOptions\<lparr>opt_domElementFormat := Some Disabled\<rparr>) browserHost)
       (exampleHeap 5) = ''[DOM Element]''
   \<and> formatArgument (newLogger noOptions browserHost) exampleHeap (JRef 5) 0 {} []
       = (Inr ''<div> with 1 attributes and 2 children'', {})
   \<and> formatDOMElement (newLogger (noOptions\<lparr>opt_domElementFormat := Some Inspect\<rparr>) browserHost)
       (Element ''DIV'' [(''id'', ''app'')] 2 [])
       = ''<div id='' @ [CHR 0x22] @ ''app'' @ [CHR 0x22] @ ''> (2 children)''
   \<and> formatArgument (newLogger compactPlain nodeHost) exampleHeap (JRef 5) 0 {} []
       = (Inr ''{}'', {5})
   \<and> formatArgument_index (newLogger noOptions browserHost) exampleHeap (JRef 5) 0 {}
       = (Inr ''<div> with 1 attributes and 2 children'', {})
   \<and> formatArgument_index (newLogger noOptions nodeHost) exampleHeap (JRef 5) 0 {}
       = (Inr ''{}'', {5})"
proof -
  let ?B = "newLogger noOptions browserHost"
  let ?N = "newLogger compactPlain nodeHost"
  have br: "isBrowser (env ?B) \<and> windowDefined (host ?B) \<and> ElementDefined (host ?B)"
    "domElementFormat ?B = Summary" "0 \<le> maxDepth ?B"
    by (simp_all add: example_defs)
  have el: "exampleHeap 5 = Element ''DIV'' [(''id'', ''app'')] 2 []"
    by (simp add: exampleHeap_def)
  have low: "toLowerCase ''DIV'' = ''div''" by code_simp
  have one: "showNat 1 = ''1''" "showNat 2 = ''2''" by (simp_all add: showNat.simps digit_def)
  have 1: "formatDOMElement (newLogger (noOptions\<lparr>opt_domElementFormat := Some Disabled\<rparr>) browserHost)
       (exampleHeap 5) = ''[DOM Element]''"
    using element_rendering
      [of "newLogger (noOptions\<lparr>opt_domElementFormat := Some Disabled\<rparr>) browserHost"
        "exampleHeap 5"]
    by (simp add: example_defs)
  have 2: "formatArgument ?B exampleHeap (JRef 5) 0 {} []
       = (Inr ''<div> with 1 attributes and 2 children'', {})"
    using element_rendering [of ?B _ "''DIV''" "[(''id'', ''app'')]" 2 "[]" 0 exampleHeap 5 "{}" "[]"]
      br el low one
    by simp
  have 3: "formatDOMElement (newLogger (noOptions\<lparr>opt_domElementFormat := Some Inspect\<rparr>) browserHost)
       (Element ''DIV'' [(''id'', ''app'')] 2 [])
       = ''<div id='' @ [CHR 0x22] @ ''app'' @ [CHR 0x22] @ ''> (2 children)''"
    using element_rendering
      [of "newLogger (noOptions\<lparr>opt_domElementFormat := Some Inspect\<rparr>) browserHost"
         _ "''DIV''" "[(''id'', ''app'')]" 2 "[]"] low one
    by (simp add: example_defs inspectAttributes_def dq_def)
  have 4: "formatArgument ?N exampleHeap (JRef 5) 0 {} [] = (Inr ''{}'', {5})"
    using element_rendering [of ?N _ _ _ _ _ 0 exampleHeap 5 "{}" "[]"] el
    by (simp add: example_defs objectText_def colorizeText_def)
  have 5: "formatArgument_index ?B exampleHeap (JRef 5) 0 {}
       = (Inr ''<div> with 1 attributes and 2 children'', {})"
    using element_rendering [of ?B _ _ _ _ _ 0 exampleHeap 5 "{}"] br el low one
    by (simp add: formatDOMElement_index_def)
  have 6: "formatArgument_index (newLogger noOptions nodeHost) exampleHeap (JRef 5) 0 {}
       = (Inr ''{}'', {5})"
    using element_rendering [of "newLogger noOptions nodeHost" _ _ _ _ _ 0 exampleHeap 5 "{}"] el
    by (simp add: example_defs objectText_index_def)
  show ?thesis using 1 2 3 4 5 6 by blast
qed

subsection \<open>C10: circular handling on tree-shaped values\<close>

lemma enableCircularHandling_irrelevant [simp]:
  "colorizeText (L\<lparr>enableCircularHandling := b\<rparr>) t k = colorizeText L t k"
  "formatDOMElement (L\<lparr>enableCircularHandling := b\<rparr>) el = formatDOMElement L el"
  "formatDOMElement_index (L\<lparr>enableCircularHandling := b\<rparr>) el = formatDOMElement_index L el"
  "isContainer (L\<lparr>enableCircularHandling := b\<rparr>) obj = isContainer L obj"
  "isContainer_index (L\<lparr>enableCircularHandling := b\<rparr>) obj = isContainer_index L obj"
  "childIndentation (L\<lparr>enableCircularHandling := b\<rparr>) ind = childIndentation L ind"
  by (simp_all add: colorizeText_def formatDOMElement_def formatDOMElement_index_def
        isContainer_def isContainer_index_def childIndentation_def getIndentation_def)

lemma enableCircularHandling_irrelevant_text [simp]:
  "primitiveText (L\<lparr>enableCircularHandling := b\<rparr>) arg = primitiveText L arg"
  "primitiveText_index (L\<lparr>enableCircularHandling := b\<rparr>) arg = primitiveText_index L arg"
  "arrayText (L\<lparr>enableCircularHandling := b\<rparr>) ind strs = arrayText L ind strs"
  "objectText (L\<lparr>enableCircularHandling := b\<rparr>) ind keys strs = objectText L ind keys strs"
  by (simp_all add: primitiveText_def primitiveText_index_def arrayText_def objectText_def
        getIndentation_def split: jsval.splits)

lemma formatArguments_tree:
  assumes step: "\<And>c seen.
      distinct (V c) \<Longrightarrow> seen \<inter> set (V c) = {} \<Longrightarrow>
      (\<forall>seen0. fst (formatArgument (L\<lparr>enableCircularHandling := True\<rparr>) h c depth seen i)
                = fst (formatArgument (L\<lparr>enableCircularHandling := False\<rparr>) h c depth seen0 i))
      \<and> snd (formatArgument (L\<lparr>enableCircularHandling := True\<rparr>) h c depth seen i)
          \<subseteq> seen \<union> set (V c)"
    and "distinct (concat (map V args))" "seen \<inter> set (concat (map V args)) = {}"
  shows "(\<forall>seen0. fst (formatArguments (L\<lparr>enableCircularHandling := True\<rparr>) h args depth seen i)
                = fst (formatArguments (L\<lparr>enableCircularHandling := False\<rparr>) h args depth seen0 i))
      \<and> snd (formatArguments (L\<lparr>enableCircularHandling := True\<rparr>) h args depth seen i)
          \<subseteq> seen \<union> set (concat (map V args))"
  using assms(2,3)
proof (induction args arbitrary: seen)
  case Nil
  show ?case by simp
next
  case (Cons item rest)
  let ?T = "L\<lparr>enableCircularHandling := True\<rparr>" and ?F = "L\<lparr>enableCircularHandling := False\<rparr>"
  from Cons.prems have d1: "distinct (V item)" and d2: "distinct (concat (map V rest))"
    and dj: "set (V item) \<inter> set (concat (map V rest)) = {}"
    and s1: "seen \<inter> set (V item) = {}" and s2: "seen \<inter> set (concat (map V rest)) = {}"
    by auto
  obtain r t where p: "formatArgument ?T h item depth seen i = (r, t)"
    by (cases "formatArgument ?T h item depth seen i")
  from step [OF d1 s1] p
  have e: "\<And>seen0. fst (formatArgument ?F h item depth seen0 i) = r"
    and t: "t \<subseteq> seen \<union> set (V item)"
    by simp_all
  from t dj s2 have t2: "t \<inter> set (concat (map V rest)) = {}" by blast
  note IH = Cons.IH [OF d2 t2]
  have sub: "snd (formatArguments ?T h rest depth t i) \<subseteq> seen \<union> set (concat (map V (item # rest)))"
    using IH t by auto
  have "fst (formatArguments ?T h (item # rest) depth seen i)
        = fst (formatArguments ?F h (item # rest) depth seen0 i)" for seen0
  proof -
    obtain t0 where f: "formatArgument ?F h item depth seen0 i = (r, t0)"
      using e [of seen0] by (cases "formatArgument ?F h item depth seen0 i") simp
    from IH have "fst (formatArguments ?T h rest depth t i)
        = fst (formatArguments ?F h rest depth t0 i)" by blast
    with p f show ?thesis
      by (cases r) (auto split: prod.splits sum.splits)
  qed
  moreover have "snd (formatArguments ?T h (item # rest) depth seen i)
      \<subseteq> seen \<union> set (concat (map V (item # rest)))"
    using p t sub by (cases r) (auto split: prod.splits sum.splits)
  ultimately show ?case by blast
qed


lemma formatArgument_tree:
  "distinct (visits (isContainer L) (maxDepth L + 1 - depth) h arg) \<Longrightarrow>
   seen \<inter> set (visits (isContainer L) (maxDepth L + 1 - depth) h arg) = {} \<Longrightarrow>
     (\<forall>seen0. fst (formatArgument (L\<lparr>enableCircularHandling := True\<rparr>) h arg depth seen ind)
               = fst (formatArgument (L\<lparr>enableCircularHandling := False\<rparr>) h arg depth seen0 ind))
     \<and> snd (formatArgument (L\<lparr>enableCircularHandling := True\<rparr>) h arg depth seen ind)
         \<subseteq> seen \<union> set (visits (isContainer L) (maxDepth L + 1 - depth) h arg)"
proof (induction arg depth seen ind
    rule: formatArgument_induct [where L = "L\<lparr>enableCircularHandling := True\<rparr>" and h = h
      and C = "isContainer L"])
  case (deep arg depth seen ind)
  then show ?case by (simp add: formatArgument_deep)
next
  case (primitive arg depth seen ind)
  then show ?case by (simp add: formatArgument_primitive)
next
  case (noncontainer a depth seen ind)
  then show ?case by (simp add: formatArgument_noncontainer split: sum.splits)
next
  case (circular a depth seen ind)
  from circular(1) have n: "maxDepth L + 1 - depth = Suc (maxDepth L - depth)" by simp
  from circular(2,4,6) show ?case unfolding n by simp
next
  case (container a depth seen ind)
  let ?T = "L\<lparr>enableCircularHandling := True\<rparr>" and ?F = "L\<lparr>enableCircularHandling := False\<rparr>"
  let ?V = "visits (isContainer L) (maxDepth L + 1 - (depth + 1)) h"
  from container(1) have n: "maxDepth L + 1 - depth = Suc (maxDepth L + 1 - (depth + 1))" by simp
  have v: "visits (isContainer L) (maxDepth L + 1 - depth) h (JRef a)
      = a # concat (map ?V (childValues (h a)))"
    unfolding n using container(2) by simp
  from container(5,6) have a: "a \<notin> seen" "a \<notin> set (concat (map ?V (childValues (h a))))"
    and dc: "distinct (concat (map ?V (childValues (h a))))"
    and sc: "insert a seen \<inter> set (concat (map ?V (childValues (h a)))) = {}"
    unfolding v by auto
  have rec: "(\<forall>seen0. fst (formatArguments ?T h (childValues (h a)) (depth + 1) (insert a seen) i)
                = fst (formatArguments ?F h (childValues (h a)) (depth + 1) seen0 i))
      \<and> snd (formatArguments ?T h (childValues (h a)) (depth + 1) (insert a seen) i)
          \<subseteq> insert a seen \<union> set (concat (map ?V (childValues (h a))))" for i
    by (rule formatArguments_tree [where V = ?V, OF _ dc sc]) (use container(4) in simp)
  have d: "depth \<le> maxDepth ?T" "depth \<le> maxDepth ?F"
    and c: "isContainer ?T (h a)" "isContainer ?F (h a)"
    and nh: "\<not> (enableCircularHandling ?T \<and> a \<in> seen)"
      "\<not> (enableCircularHandling ?F \<and> a \<in> seen0)" for seen0
    using container(1,2) a(1) by simp_all
  show ?case
  proof (cases "is_Array (h a)")
    case True
    have cv: "childValues (h a) = items (h a)" using True by (simp add: childValues_array)
    obtain q s2 where p: "formatArguments ?T h (items (h a)) (depth + 1) (insert a seen)
        (childIndentation L ind) = (q, s2)"
      by (cases "formatArguments ?T h (items (h a)) (depth + 1) (insert a seen)
        (childIndentation L ind)")
    have l: "formatArgument ?T h (JRef a) depth seen ind
        = (case q of Inl e \<Rightarrow> Inl e | Inr strs \<Rightarrow> Inr (arrayText L ind strs), s2)"
      using p d(1) c(1) True nh(1) by (simp add: formatArgument_array split: sum.splits)
    have r: "fst (formatArgument ?F h (JRef a) depth seen0 ind)
        = (case q of Inl e \<Rightarrow> Inl e | Inr strs \<Rightarrow> Inr (arrayText L ind strs))" for seen0
    proof -
      obtain q' s2' where f: "formatArguments ?F h (items (h a)) (depth + 1) seen0
          (childIndentation L ind) = (q', s2')"
        by (cases "formatArguments ?F h (items (h a)) (depth + 1) seen0 (childIndentation L ind)")
      from rec [of "childIndentation L ind"]
      have "fst (formatArguments ?T h (items (h a)) (depth + 1) (insert a seen)
            (childIndentation L ind))
          = fst (formatArguments ?F h (items (h a)) (depth + 1) seen0 (childIndentation L ind))"
        unfolding cv by blast
      with p f have "q' = q" by simp
      with f d(2) c(2) True nh(2) [of seen0] show ?thesis
        by (simp add: formatArgument_array split: sum.splits)
    qed
    from rec [of "childIndentation L ind"] p have "s2 \<subseteq> seen \<union> set (a # concat (map ?V (childValues (h a))))"
      unfolding cv by auto
    with l r show ?thesis unfolding v by simp
  next
    case False
    show ?thesis
    proof (cases "Object_entries (h a)")
      case (Inl e)
      with d c False nh show ?thesis unfolding v
        by (auto simp add: formatArgument_object)
    next
      case (Inr es)
      have cv: "childValues (h a) = map snd es" using False Inr by (simp add: childValues_object)
      obtain q s2 where p: "formatArguments ?T h (map snd es) (depth + 1) (insert a seen)
          (childIndentation L ind) = (q, s2)"
        by (cases "formatArguments ?T h (map snd es) (depth + 1) (insert a seen)
          (childIndentation L ind)")
      have l: "formatArgument ?T h (JRef a) depth seen ind
          = (case q of Inl e \<Rightarrow> Inr (failedToStringify e)
             | Inr strs \<Rightarrow> Inr (objectText L ind (map fst es) strs), s2)"
        using p Inr d(1) c(1) False nh(1) by (simp add: formatArgument_object split: sum.splits)
      have r: "fst (formatArgument ?F h (JRef a) depth seen0 ind)
          = (case q of Inl e \<Rightarrow> Inr (failedToStringify e)
             | Inr strs \<Rightarrow> Inr (objectText L ind (map fst es) strs))" for seen0
      proof -
        obtain q' s2' where f: "formatArguments ?F h (map snd es) (depth + 1) seen0
            (childIndentation L ind) = (q', s2')"
          by (cases "formatArguments ?F h (map snd es) (depth + 1) seen0 (childIndentation L ind)")
        from rec [of "childIndentation L ind"]
        have "fst (formatArguments ?T h (map snd es) (depth + 1) (insert a seen)
              (childIndentation L ind))
            = fst (formatArguments ?F h (map snd es) (depth + 1) seen0 (childIndentation L ind))"
          unfolding cv by blast
        with p f have "q' = q" by simp
        with f Inr d(2) c(2) False nh(2) [of seen0] show ?thesis
          by (simp add: formatArgument_object split: sum.splits)
      qed
      from rec [of "childIndentation L ind"] p
      have "s2 \<subseteq> seen \<union> set (a # concat (map ?V (childValues (h a))))"
        unfolding cv by auto
      with l r show ?thesis unfolding v by simp
    qed
  qed
qed


lemma formatArguments_index_tree:
  assumes step: "\<And>c seen.
      distinct (V c) \<Longrightarrow> seen \<inter> set (V c) = {} \<Longrightarrow>
      (\<forall>seen0. fst (formatArgument_index (L\<lparr>enableCircularHandling := True\<rparr>) h c depth seen)
                = fst (formatArgument_index (L\<lparr>enableCircularHandling := False\<rparr>) h c depth seen0))
      \<and> snd (formatArgument_index (L\<lparr>enableCircularHandling := True\<rparr>) h c depth seen)
          \<subseteq> seen \<union> set (V c)"
    and "distinct (concat (map V args))" "seen \<inter> set (concat (map V args)) = {}"
  shows "(\<forall>seen0. fst (formatArguments_index (L\<lparr>enableCircularHandling := True\<rparr>) h args depth seen)
                = fst (formatArguments_index (L\<lparr>enableCircularHandling := False\<rparr>) h args depth seen0))
      \<and> snd (formatArguments_index (L\<lparr>enableCircularHandling := True\<rparr>) h args depth seen)
          \<subseteq> seen \<union> set (concat (map V args))"
  using assms(2,3)
proof (induction args arbitrary: seen)
  case Nil
  show ?case by simp
next
  case (Cons item rest)
  let ?T = "L\<lparr>enableCircularHandling := True\<rparr>" and ?F = "L\<lparr>enableCircularHandling := False\<rparr>"
  from Cons.prems have d1: "distinct (V item)" and d2: "distinct (concat (map V rest))"
    and dj: "set (V item) \<inter> set (concat (map V rest)) = {}"
    and s1: "seen \<inter> set (V item) = {}" and s2: "seen \<inter> set (concat (map V rest)) = {}"
    by auto
  obtain r t where p: "formatArgument_index ?T h item depth seen = (r, t)"
    by (cases "formatArgument_index ?T h item depth seen")
  from step [OF d1 s1] p
  have e: "\<And>seen0. fst (formatArgument_index ?F h item depth seen0) = r"
    and t: "t \<subseteq> seen \<union> set (V item)"
    by simp_all
  from t dj s2 have t2: "t \<inter> set (concat (map V rest)) = {}" by blast
  note IH = Cons.IH [OF d2 t2]
  have sub: "snd (formatArguments_index ?T h rest depth t)
      \<subseteq> seen \<union> set (concat (map V (item # rest)))"
    using IH t by auto
  have "fst (formatArguments_index ?T h (item # rest) depth seen)
        = fst (formatArguments_index ?F h (item # rest) depth seen0)" for seen0
  proof -
    obtain t0 where f: "formatArgument_index ?F h item depth seen0 = (r, t0)"
      using e [of seen0] by (cases "formatArgument_index ?F h item depth seen0") simp
    from IH have "fst (formatArguments_index ?T h rest depth t)
        = fst (formatArguments_index ?F h rest depth t0)" by blast
    with p f show ?thesis
      by (cases r) (auto split: prod.splits sum.splits)
  qed
  moreover have "snd (formatArguments_index ?T h (item # rest) depth seen)
      \<subseteq> seen \<union> set (concat (map V (item # rest)))"
    using p t sub by (cases r) (auto split: prod.splits sum.splits)
  ultimately show ?case by blast
qed

lemma formatArgument_index_tree:
  "distinct (visits (isContainer_index L) (maxDepth L + 1 - depth) h arg) \<Longrightarrow>
   seen \<inter> set (visits (isContainer_index L) (maxDepth L + 1 - depth) h arg) = {} \<Longrightarrow>
     (\<forall>seen0. fst (formatArgument_index (L\<lparr>enableCircularHandling := True\<rparr>) h arg depth seen)
               = fst (formatArgument_index (L\<lparr>enableCircularHandling := False\<rparr>) h arg depth seen0))
     \<and> snd (formatArgument_index (L\<lparr>enableCircularHandling := True\<rparr>) h arg depth seen)
         \<subseteq> seen \<union> set (visits (isContainer_index L) (maxDepth L + 1 - depth) h arg)"
proof (induction arg depth seen "[] :: string"
    rule: formatArgument_induct [where L = "L\<lparr>enableCircularHandling := True\<rparr>" and h = h
      and C = "isContainer_index L"])
  case (deep arg depth seen)
  then show ?case by (simp add: formatArgument_index_deep)
next
  case (primitive arg depth seen)
  then show ?case by (simp add: formatArgument_index_primitive)
next
  case (noncontainer a depth seen)
  then show ?case by (simp add: formatArgument_index_noncontainer)
next
  case (circular a depth seen)
  from circular(1) have n: "maxDepth L + 1 - depth = Suc (maxDepth L - depth)" by simp
  from circular(2,4,6) show ?case unfolding n by simp
next
  case (container a depth seen)
  let ?T = "L\<lparr>enableCircularHandling := True\<rparr>" and ?F = "L\<lparr>enableCircularHandling := False\<rparr>"
  let ?V = "visits (isContainer_index L) (maxDepth L + 1 - (depth + 1)) h"
  from container(1) have n: "maxDepth L + 1 - depth = Suc (maxDepth L + 1 - (depth + 1))" by simp
  have v: "visits (isContainer_index L) (maxDepth L + 1 - depth) h (JRef a)
      = a # concat (map ?V (childValues (h a)))"
    unfolding n using container(2) by simp
  from container(5,6) have a: "a \<notin> seen" "a \<notin> set (concat (map ?V (childValues (h a))))"
    and dc: "distinct (concat (map ?V (childValues (h a))))"
    and sc: "insert a seen \<inter> set (concat (map ?V (childValues (h a)))) = {}"
    unfolding v by auto
  have rec: "(\<forall>seen0. fst (formatArguments_index ?T h (childValues (h a)) (depth + 1) (insert a seen))
                = fst (formatArguments_index ?F h (childValues (h a)) (depth + 1) seen0))
      \<and> snd (formatArguments_index ?T h (childValues (h a)) (depth + 1) (insert a seen))
          \<subseteq> insert a seen \<union> set (concat (map ?V (childValues (h a))))"
    by (rule formatArguments_index_tree [where V = ?V, OF _ dc sc]) (use container(4) in simp)
  have d: "depth \<le> maxDepth ?T" "depth \<le> maxDepth ?F"
    and c: "isContainer_index ?T (h a)" "isContainer_index ?F (h a)"
    and nh: "\<not> (enableCircularHandling ?T \<and> a \<in> seen)"
      "\<not> (enableCircularHandling ?F \<and> a \<in> seen0)" for seen0
    using container(1,2) a(1) by simp_all
  show ?case
  proof (cases "is_Array (h a)")
    case True
    have cv: "childValues (h a) = items (h a)" using True by (simp add: childValues_array)
    obtain q s2 where
      p: "formatArguments_index ?T h (items (h a)) (depth + 1) (insert a seen) = (q, s2)"
      by (cases "formatArguments_index ?T h (items (h a)) (depth + 1) (insert a seen)")
    have l: "formatArgument_index ?T h (JRef a) depth seen
        = (case q of Inl e \<Rightarrow> Inl e | Inr strs \<Rightarrow> Inr (arrayText_index strs), s2)"
      using p d(1) c(1) True nh(1) by (simp add: formatArgument_index_array split: sum.splits)
    have r: "fst (formatArgument_index ?F h (JRef a) depth seen0)
        = (case q of Inl e \<Rightarrow> Inl e | Inr strs \<Rightarrow> Inr (arrayText_index strs))" for seen0
    proof -
      obtain q' s2' where
        f: "formatArguments_index ?F h (items (h a)) (depth + 1) seen0 = (q', s2')"
        by (cases "formatArguments_index ?F h (items (h a)) (depth + 1) seen0")
      from rec
      have "fst (formatArguments_index ?T h (items (h a)) (depth + 1) (insert a seen))
          = fst (formatArguments_index ?F h (items (h a)) (depth + 1) seen0)"
        unfolding cv by blast
      with p f have "q' = q" by simp
      with f d(2) c(2) True nh(2) [of seen0] show ?thesis
        by (simp add: formatArgument_index_array split: sum.splits)
    qed
    from rec p have "s2 \<subseteq> seen \<union> set (a # concat (map ?V (childValues (h a))))"
      unfolding cv by auto
    with l r show ?thesis unfolding v by simp
  next
    case False
    show ?thesis
    proof (cases "Object_entries (h a)")
      case (Inl e)
      with d c False nh show ?thesis unfolding v
        by (auto simp add: formatArgument_index_object)
    next
      case (Inr es)
      have cv: "childValues (h a) = map snd es" using False Inr by (simp add: childValues_object)
      obtain q s2 where
        p: "formatArguments_index ?T h (map snd es) (depth + 1) (insert a seen) = (q, s2)"
        by (cases "formatArguments_index ?T h (map snd es) (depth + 1) (insert a seen)")
      have l: "formatArgument_index ?T h (JRef a) depth seen
          = (case q of Inl e \<Rightarrow> Inr (failedToStringify e)
             | Inr strs \<Rightarrow> Inr (objectText_index (map fst es) strs), s2)"
        using p Inr d(1) c(1) False nh(1)
        by (simp add: formatArgument_index_object split: sum.splits)
      have r: "fst (formatArgument_index ?F h (JRef a) depth seen0)
          = (case q of Inl e \<Rightarrow> Inr (failedToStringify e)
             | Inr strs \<Rightarrow> Inr (objectText_index (map fst es) strs))" for seen0
      proof -
        obtain q' s2' where
          f: "formatArguments_index ?F h (map snd es) (depth + 1) seen0 = (q', s2')"
          by (cases "formatArguments_index ?F h (map snd es) (depth + 1) seen0")
        from rec
        have "fst (formatArguments_index ?T h (map snd es) (depth + 1) (insert a seen))
            = fst (formatArguments_index ?F h (map snd es) (depth + 1) seen0)"
          unfolding cv by blast
        with p f have "q' = q" by simp
        with f Inr d(2) c(2) False nh(2) [of seen0] show ?thesis
          by (simp add: formatArgument_index_object split: sum.splits)
      qed
      from rec p have "s2 \<subseteq> seen \<union> set (a # concat (map ?V (childValues (h a))))"
        unfolding cv by auto
      with l r show ?thesis unfolding v by simp
    qed
  qed
qed

text \<open>
  C10.  When the containers met from the value in the levels the formatter descends
  into are all different (the value is tree-shaped there, which every acyclic value
  without a repeated container is) and none of them is in \<open>seen\<close> at the start (the
  \<open>seen\<close> map of a top-level call is empty), the outcome with circular handling on is
  the outcome with circular handling off, in both revisions.
\<close>

theorem circular_handling_irrelevant_on_trees:
  "(distinct (visits (isContainer L) (maxDepth L + 1 - depth) h arg)
      \<and> seen \<inter> set (visits (isContainer L) (maxDepth L + 1 - depth) h arg) = {} \<longrightarrow>
      fst (formatArgument (L\<lparr>enableCircularHandling := True\<rparr>) h arg depth seen ind)
        = fst (formatArgument (L\<lparr>enableCircularHandling := False\<rparr>) h arg depth seen ind))
   \<and> (distinct (visits (isContainer_index L) (maxDepth L + 1 - depth) h arg)
        \<and> seen \<inter> set (visits (isContainer_index L) (maxDepth L + 1 - depth) h arg) = {} \<longrightarrow>
        fst (formatArgument_index (L\<lparr>enableCircularHandling := True\<rparr>) h arg depth seen)
          = fst (formatArgument_index (L\<lparr>enableCircularHandling := False\<rparr>) h arg depth seen))"
  using formatArgument_tree [of L depth h arg seen ind]
    formatArgument_index_tree [of L depth h arg seen]
  by blast

lemma shared_outputs_differ:
  "fst (formatArgument (newLogger compactPlain nodeHost) exampleHeap (JRef 4) 0 {} [])
     = Inr ''[[1, 2, 3], [Circular Reference]]''
   \<and> fst (formatArgument
          (newLogger (compactPlain\<lparr>opt_enableCircularHandling := Some False\<rparr>) nodeHost)
          exampleHeap (JRef 4) 0 {} [])
     = Inr ''[[1, 2, 3], [1, 2, 3]]''"
  by (simp add: formatArgument.simps example_defs colorizeText_def String_number_def showInt_def
        showNat.simps digit_def insert_commute)

theorem circular_handling_irrelevant_on_trees_witness:
  "fst (formatArgument (newLogger compactPlain nodeHost) exampleHeap (JRef 0) 0 {} [])
     = fst (formatArgument
         (newLogger (compactPlain\<lparr>opt_enableCircularHandling := Some False\<rparr>) nodeHost)
         exampleHeap (JRef 0) 0 {} [])
   \<and> fst (formatArgument_index (newLogger noOptions nodeHost) exampleHeap (JRef 0) 0 {})
     = fst (formatArgument_index
         (newLogger (noOptions\<lparr>opt_enableCircularHandling := Some False\<rparr>) nodeHost)
         exampleHeap (JRef 0) 0 {})"
proof -
  let ?L = "newLogger compactPlain nodeHost" and ?D = "newLogger noOptions nodeHost"
  have t: "?L\<lparr>enableCircularHandling := True\<rparr> = ?L"
    "?L\<lparr>enableCircularHandling := False\<rparr>
      = newLogger (compactPlain\<lparr>opt_enableCircularHandling := Some False\<rparr>) nodeHost"
    "?D\<lparr>enableCircularHandling := True\<rparr> = ?D"
    "?D\<lparr>enableCircularHandling := False\<rparr>
      = newLogger (noOptions\<lparr>opt_enableCircularHandling := Some False\<rparr>) nodeHost"
    by (simp_all add: newLogger_def noOptions_def compactPlain_def orDefault_def)
  have md: "maxDepth ?L + 1 - 0 = 6" "maxDepth ?D + 1 - 0 = 6"
    by (simp_all add: example_defs)
  have six: "(6::nat) = Suc (Suc (Suc (Suc (Suc (Suc 0)))))"
    by simp
  have v: "visits (isContainer ?L) (maxDepth ?L + 1 - 0) exampleHeap (JRef 0) = [0, 1]"
    "visits (isContainer_index ?D) (maxDepth ?D + 1 - 0) exampleHeap (JRef 0) = [0, 1]"
    unfolding md six
    by (simp_all add: isContainer_def isContainer_index_def childValues_def exampleHeap_def)
  show ?thesis
    using
      circular_handling_irrelevant_on_trees [of ?L 0 exampleHeap "JRef 0" "{}" "[]",
        unfolded v t]
      circular_handling_irrelevant_on_trees [of ?D 0 exampleHeap "JRef 0" "{}" "[]",
        unfolded v t]
    by simp
qed

end
